theory Spec2Isabelle
  imports Complex_Main "HOL-Library.Char_ord" "HOL-Library.List_Lexorder"
begin

section \<open>The ID3 decision tree of decisionTree.cpp\<close>

text \<open>
  The theory embeds the tree-induction and prediction code of \<^verbatim>\<open>src/decisionTree.cpp\<close>.

  \<^item> \<^verbatim>\<open>std::string\<close> is \<open>string\<close>. Its \<^verbatim>\<open>operator<\<close> compares byte-wise and
    lexicographically, a proper prefix being smaller; this is the order that
    \<open>Char_ord\<close> and \<open>List_Lexorder\<close> put on \<open>char list\<close>.
  \<^item> \<^verbatim>\<open>std::map<std::string, V>\<close> is an association list kept strictly ascending in
    its keys, because the code iterates over its maps and a \<^verbatim>\<open>std::map\<close> iterates in
    key order.
  \<^item> \<^verbatim>\<open>std::set<std::string>\<close> is only inserted into and searched: a \<open>string set\<close>.
    The parameter \<^verbatim>\<open>usedFeatures\<close> of \<^verbatim>\<open>buildTree\<close> is passed by value.
  \<^item> \<^verbatim>\<open>std::vector<int>\<close> of row indices is a \<open>nat list\<close>; the \<^verbatim>\<open>int\<close> counters count
    rows of the subset and are \<open>nat\<close>.
  \<^item> \<^verbatim>\<open>double\<close>: \<open>calculateEntropy\<close>, \<open>calculateInformationGain\<close> and \<open>findBestFeature\<close>
    evaluate the formulas of the source in exact arithmetic (\<open>real\<close>, \<open>log 2\<close>), and
    \<open>buildTree\<close> is defined on them; of the gains, the theorems about the tree use
    only that the gain of an eligible feature exceeds \<open>-1.0\<close>. The last section gives the
    same three functions with every operation rounded as IEEE-754 binary64 rounds it
    (\<open>calculateEntropy_double\<close>, \<open>calculateInformationGain_double\<close>,
    \<open>findBestFeature_double\<close>) and bounds the difference between the computed and the
    exact gain; what depends on the computed value of a gain is settled there.
  \<^item> \<^verbatim>\<open>data[idx][col]\<close> is undefined behaviour in C++ when \<open>idx\<close> or \<open>col\<close> is out of
    range. The model reads with \<open>!\<close>; the predicates \<open>valid_dataset\<close> and
    \<open>valid_subset\<close> below describe the inputs on which every read of the code is in
    range.
\<close>

subsection \<open>Data\<close>

text \<open>\<^verbatim>\<open>struct TreeNode\<close>: the fields in the order of the source. The field \<^verbatim>\<open>value\<close> is
  the edge value under which the parent reaches the node.\<close>

datatype TreeNode =
  TreeNode (feature: string) (value': string) (prediction: string) (isLeaf: bool)
           (children: "TreeNode list")

text \<open>The private fields of \<^verbatim>\<open>class DecisionTree\<close>; a \<^verbatim>\<open>unique_ptr\<close> that may be null is
  an \<open>option\<close>.\<close>

record DecisionTree =
  data :: "string list list"
  headers :: "string list"
  targetColumn :: string
  root :: "TreeNode option"

subsection \<open>The ordered map\<close>

text \<open>\<open>std_map_modify k d f m\<close> is \<^verbatim>\<open>f(m[k])\<close> done in place: \<^verbatim>\<open>operator[]\<close> inserts the
  value-initialised \<open>d\<close> under a missing key, at the key's place in the order, and \<open>f\<close>
  changes the value found there.\<close>

fun std_map_modify :: "'k::linorder \<Rightarrow> 'v \<Rightarrow> ('v \<Rightarrow> 'v) \<Rightarrow> ('k \<times> 'v) list \<Rightarrow> ('k \<times> 'v) list" where
  "std_map_modify k d f [] = [(k, f d)]"
| "std_map_modify k d f ((k', v) # m) =
     (if k = k' then (k', f v) # m
      else if k < k' then (k, f d) # (k', v) # m
      else (k', v) # std_map_modify k d f m)"

subsection \<open>Dataset view\<close>

text \<open>\<^verbatim>\<open>std::distance(headers.begin(), std::find(...))\<close>: the position of the first
  occurrence, the length of the list when there is none.\<close>

fun find_distance :: "string list \<Rightarrow> string \<Rightarrow> nat" where
  "find_distance [] x = 0"
| "find_distance (h # hs) x = (if h = x then 0 else Suc (find_distance hs x))"

definition getColumnIndex :: "DecisionTree \<Rightarrow> string \<Rightarrow> int" where
  "getColumnIndex dt columnName =
     (let it = find_distance (headers dt) columnName
      in if it \<noteq> length (headers dt) then int it else - 1)"

text \<open>\<^verbatim>\<open>data[idx][col]\<close> with an \<^verbatim>\<open>int\<close> column.\<close>

definition cell :: "DecisionTree \<Rightarrow> nat \<Rightarrow> int \<Rightarrow> string" where
  "cell dt idx col = data dt ! idx ! nat col"

text \<open>The loop \<^verbatim>\<open>counts[data[idx][col]]++\<close> of \<^verbatim>\<open>calculateEntropy\<close> and
  \<^verbatim>\<open>getMostCommonClass\<close>, and the loop \<^verbatim>\<open>groups[data[idx][col]].push_back(idx)\<close> of
  \<^verbatim>\<open>calculateInformationGain\<close> and \<^verbatim>\<open>buildTree\<close>.\<close>

definition countValues :: "DecisionTree \<Rightarrow> nat list \<Rightarrow> int \<Rightarrow> (string \<times> nat) list" where
  "countValues dt indices col =
     fold (\<lambda>idx counts. std_map_modify (cell dt idx col) 0 Suc counts) indices []"

definition groupByValue :: "DecisionTree \<Rightarrow> nat list \<Rightarrow> int \<Rightarrow> (string \<times> nat list) list" where
  "groupByValue dt indices col =
     fold (\<lambda>idx groups. std_map_modify (cell dt idx col) [] (\<lambda>g. g @ [idx]) groups) indices []"

subsection \<open>Entropy and information gain\<close>

definition calculateEntropy :: "DecisionTree \<Rightarrow> nat list \<Rightarrow> real" where
  "calculateEntropy dt indices =
     (if indices = [] then 0
      else
        let counts = countValues dt indices (getColumnIndex dt (targetColumn dt));
            total = length indices
        in fold (\<lambda>pair entropy.
                   let prob = real (snd pair) / real total
                   in if prob > 0 then entropy - prob * log 2 prob else entropy)
                counts 0)"

definition calculateInformationGain :: "DecisionTree \<Rightarrow> nat list \<Rightarrow> string \<Rightarrow> real" where
  "calculateInformationGain dt indices feat =
     (let parentEntropy = calculateEntropy dt indices;
          featureIdx = getColumnIndex dt feat;
          groups = groupByValue dt indices featureIdx;
          total = length indices;
          weightedEntropy =
            fold (\<lambda>group w. w + (real (length (snd group)) / real total)
                                  * calculateEntropy dt (snd group))
                 groups 0
      in parentEntropy - weightedEntropy)"

text \<open>The loop state of \<^verbatim>\<open>findBestFeature\<close> is the pair \<open>(bestFeature, bestGain)\<close>,
  started at the empty string and \<open>-1.0\<close>.\<close>

definition findBestFeature :: "DecisionTree \<Rightarrow> nat list \<Rightarrow> string set \<Rightarrow> string" where
  "findBestFeature dt indices usedFeatures =
     fst (fold (\<lambda>feat (bestFeature, bestGain).
                  if feat \<noteq> targetColumn dt \<and> feat \<notin> usedFeatures
                  then (let gain = calculateInformationGain dt indices feat
                        in if gain > bestGain then (feat, gain)
                           else (bestFeature, bestGain))
                  else (bestFeature, bestGain))
               (headers dt) ('''', - 1))"

text \<open>The loop state of \<^verbatim>\<open>getMostCommonClass\<close> is \<open>(mostCommon, maxCount)\<close>.\<close>

definition getMostCommonClass :: "DecisionTree \<Rightarrow> nat list \<Rightarrow> string" where
  "getMostCommonClass dt indices =
     (let counts = countValues dt indices (getColumnIndex dt (targetColumn dt))
      in fst (fold (\<lambda>pair (mostCommon, maxCount).
                      if snd pair > maxCount then (fst pair, snd pair)
                      else (mostCommon, maxCount))
                   counts ('''', 0)))"

definition allSameClass :: "DecisionTree \<Rightarrow> nat list \<Rightarrow> bool" where
  "allSameClass dt indices =
     (if indices = [] then True
      else
        let targetIdx = getColumnIndex dt (targetColumn dt);
            firstClass = cell dt (indices ! 0) targetIdx
        in list_all (\<lambda>idx. cell dt idx targetIdx = firstClass) indices)"

subsection \<open>Building the tree\<close>

text \<open>\<^verbatim>\<open>child->value = group.first\<close>.\<close>

definition set_value :: "string \<Rightarrow> TreeNode \<Rightarrow> TreeNode" where
  "set_value v node = TreeNode (feature node) v (prediction node) (isLeaf node) (children node)"

text \<open>A node as \<^verbatim>\<open>std::make_unique<TreeNode>()\<close> leaves it (empty strings, not a leaf, no
  children) with \<^verbatim>\<open>isLeaf\<close> and \<^verbatim>\<open>prediction\<close> assigned.\<close>

definition leaf_node :: "string \<Rightarrow> TreeNode" where
  "leaf_node p = TreeNode '''' '''' p True []"

function buildTree :: "DecisionTree \<Rightarrow> nat list \<Rightarrow> string set \<Rightarrow> TreeNode" where
  "buildTree dt indices usedFeatures =
     (if indices = [] then leaf_node ''Unknown''
      else if allSameClass dt indices
      then leaf_node (cell dt (indices ! 0) (getColumnIndex dt (targetColumn dt)))
      else if findBestFeature dt indices usedFeatures = ''''
      then leaf_node (getMostCommonClass dt indices)
      else TreeNode (findBestFeature dt indices usedFeatures) '''' '''' False
             (map (\<lambda>group. set_value (fst group)
                     (buildTree dt (snd group)
                        (insert (findBestFeature dt indices usedFeatures) usedFeatures)))
                  (groupByValue dt indices
                     (getColumnIndex dt (findBestFeature dt indices usedFeatures)))))"
  by pat_completeness auto

text \<open>Termination: a feature that \<^verbatim>\<open>findBestFeature\<close> returns is a header that is not yet
  used, so every recursive call has fewer unused headers.\<close>

lemma fold_best_invariant:
  "fst acc = [] \<or> (fst acc \<in> set hs0 \<and> fst acc \<noteq> targetColumn dt \<and> fst acc \<notin> used) \<Longrightarrow>
   set hs \<subseteq> set hs0 \<Longrightarrow>
   (let r = fst (fold (\<lambda>feat (bestFeature, bestGain).
                  if feat \<noteq> targetColumn dt \<and> feat \<notin> used
                  then (let gain = calculateInformationGain dt indices feat
                        in if gain > bestGain then (feat, gain)
                           else (bestFeature, bestGain))
                  else (bestFeature, bestGain)) hs acc)
    in r = [] \<or> (r \<in> set hs0 \<and> r \<noteq> targetColumn dt \<and> r \<notin> used))"
  by (induction hs arbitrary: acc) (auto simp: Let_def split: prod.splits)

lemma findBestFeature_eligible:
  "findBestFeature dt indices used = [] \<or>
   (findBestFeature dt indices used \<in> set (headers dt) \<and>
    findBestFeature dt indices used \<noteq> targetColumn dt \<and>
    findBestFeature dt indices used \<notin> used)"
  unfolding findBestFeature_def
  using fold_best_invariant[of "([], -1)" "headers dt" dt used "headers dt" indices]
  by (simp add: Let_def)

termination buildTree
proof (relation "measure (\<lambda>(dt, indices, used). card (set (headers dt) - used))")
  show "wf (measure (\<lambda>(dt, indices, used). card (set (headers dt) - used)))" by simp
next
  fix dt :: DecisionTree and indices :: "nat list" and usedFeatures :: "string set"
    and x :: "string \<times> nat list"
  assume ne: "findBestFeature dt indices usedFeatures \<noteq> []"
  let ?f = "findBestFeature dt indices usedFeatures"
  from ne findBestFeature_eligible[of dt indices usedFeatures]
  have "?f \<in> set (headers dt)" "?f \<notin> usedFeatures" by auto
  then have "set (headers dt) - insert ?f usedFeatures \<subset> set (headers dt) - usedFeatures"
    by auto
  then have "card (set (headers dt) - insert ?f usedFeatures) < card (set (headers dt) - usedFeatures)"
    by (intro psubset_card_mono) auto
  then show "((dt, snd x, insert ?f usedFeatures), dt, indices, usedFeatures)
       \<in> measure (\<lambda>(dt, indices, used). card (set (headers dt) - used))"
    by simp
qed

declare buildTree.simps [simp del]

subsection \<open>Prediction\<close>

text \<open>\<^verbatim>\<open>predict\<close> with its loop over the children, which returns from the first child
  whose \<^verbatim>\<open>value\<close> equals the instance's value. The instance is a \<^verbatim>\<open>std::map\<close> that is
  only searched with \<^verbatim>\<open>find\<close>.\<close>

fun predict :: "TreeNode \<Rightarrow> (string \<rightharpoonup> string) \<Rightarrow> string"
  and predict_children :: "TreeNode list \<Rightarrow> string \<Rightarrow> (string \<rightharpoonup> string) \<Rightarrow> string" where
  "predict (TreeNode f v p leaf cs) inst =
     (if leaf then p
      else case inst f of
             None \<Rightarrow> ''Unknown''
           | Some featureValue \<Rightarrow> predict_children cs featureValue inst)"
| "predict_children [] featureValue inst = ''Unknown''"
| "predict_children (child # cs) featureValue inst =
     (if value' child = featureValue then predict child inst
      else predict_children cs featureValue inst)"

definition predictInstance :: "DecisionTree \<Rightarrow> (string \<rightharpoonup> string) \<Rightarrow> string" where
  "predictInstance dt inst = (case root dt of None \<Rightarrow> ''Unknown'' | Some node \<Rightarrow> predict node inst)"

subsection \<open>Training\<close>

text \<open>\<^verbatim>\<open>loadCSV\<close> reads a file; the model is given what the reading yields: \<open>None\<close> when
  the file cannot be opened, otherwise the lines of the file, each already split at the
  commas into trimmed cells. The first line becomes \<^verbatim>\<open>headers\<close>, the others are
  appended to \<^verbatim>\<open>data\<close>. The result pairs the returned \<^verbatim>\<open>bool\<close> with the object.\<close>

definition loadCSV :: "DecisionTree \<Rightarrow> string list list option \<Rightarrow> bool \<times> DecisionTree" where
  "loadCSV dt file =
     (case file of
        None \<Rightarrow> (False, dt)
      | Some [] \<Rightarrow> (True, dt)
      | Some (first # rest) \<Rightarrow> (True, dt\<lparr>headers := first, data := data dt @ rest\<rparr>))"

definition train :: "DecisionTree \<Rightarrow> string list list option \<Rightarrow> string \<Rightarrow> bool \<times> DecisionTree" where
  "train dt0 file target =
     (let loaded = loadCSV (dt0\<lparr>targetColumn := target\<rparr>) file;
          dt = snd loaded
      in if \<not> fst loaded then (False, dt)
         else if data dt = [] then (False, dt)
         else if getColumnIndex dt (targetColumn dt) = - 1 then (False, dt)
         else (True, dt\<lparr>root := Some (buildTree dt [0..<length (data dt)] {})\<rparr>))"

text \<open>The object as \<^verbatim>\<open>main\<close> declares it.\<close>

definition new_tree :: DecisionTree where
  "new_tree = \<lparr>data = [], headers = [], targetColumn = [], root = None\<rparr>"

subsection \<open>Inputs on which every read is in range\<close>

text \<open>The target column is a header and every row has one cell per header (the loader's
  contract); a subset holds positions of rows.\<close>

definition valid_dataset :: "DecisionTree \<Rightarrow> bool" where
  "valid_dataset dt =
     (targetColumn dt \<in> set (headers dt) \<and>
      list_all (\<lambda>row. length row = length (headers dt)) (data dt))"

definition valid_subset :: "DecisionTree \<Rightarrow> nat list \<Rightarrow> bool" where
  "valid_subset dt indices = list_all (\<lambda>idx. idx < length (data dt)) indices"

subsection \<open>Measures of a tree\<close>

text \<open>All nodes of a tree, the root first.\<close>

fun nodes :: "TreeNode \<Rightarrow> TreeNode list" where
  "nodes (TreeNode f v p leaf cs) = TreeNode f v p leaf cs # concat (map nodes cs)"

text \<open>The number of edges on a longest path from the node down.\<close>

fun depth :: "TreeNode \<Rightarrow> nat" where
  "depth (TreeNode f v p leaf cs) = fold max (map (\<lambda>c. Suc (depth c)) cs) 0"

text \<open>For every path from the node down to a leaf, the features of the decision nodes on
  it, from the top.\<close>

fun path_features :: "TreeNode \<Rightarrow> string list list" where
  "path_features (TreeNode f v p leaf cs) =
     (if leaf then [[]] else concat (map (\<lambda>c. map ((#) f) (path_features c)) cs))"

section \<open>Properties\<close>

subsection \<open>The ordered map holds one entry per value, in ascending order\<close>

lemma std_map_modify_tabulate:
  "sorted_wrt (<) ks \<Longrightarrow>
   std_map_modify k d f (map (\<lambda>v. (v, g v)) ks) =
   map (\<lambda>v. (v, if v = k then f (if k \<in> set ks then g k else d) else g v))
       (if k \<in> set ks then ks else insort k ks)"
proof (induction ks)
  case Nil
  then show ?case by simp
next
  case (Cons a ks)
  then show ?case by (auto simp: not_less)
qed

lemma fold_std_map_modify:
  "fold (\<lambda>i m. std_map_modify (key i) d (f i) m) xs [] =
   map (\<lambda>v. (v, fold f (filter (\<lambda>i. key i = v) xs) d))
       (sorted_list_of_set (key ` set xs))"
proof (induction xs rule: rev_induct)
  case Nil
  then show ?case by simp
next
  case (snoc x xs)
  let ?A = "key ` set xs"
  let ?g = "\<lambda>v. fold f (filter (\<lambda>i. key i = v) xs) d"
  have fin: "finite ?A" by simp
  have ss: "sorted_wrt (<) (sorted_list_of_set ?A)" by simp
  have ins: "(if key x \<in> ?A then sorted_list_of_set ?A else insort (key x) (sorted_list_of_set ?A))
        = sorted_list_of_set (key ` set (xs @ [x]))"
  proof (cases "key x \<in> ?A")
    case True
    then have "insert (key x) ?A = ?A" by auto
    with True show ?thesis by simp
  next
    case False
    then show ?thesis by simp
  qed
  have empty: "key x \<notin> ?A \<Longrightarrow> filter (\<lambda>i. key i = key x) xs = []"
  proof -
    assume "key x \<notin> ?A"
    then have "\<forall>i\<in>set xs. key i \<noteq> key x" by (metis image_eqI)
    then show ?thesis by (simp add: filter_empty_conv)
  qed
  have vals: "(if v = key x then f x (if key x \<in> ?A then ?g (key x) else d) else ?g v)
       = fold f (filter (\<lambda>i. key i = v) (xs @ [x])) d" for v
    using empty by auto
  have "fold (\<lambda>i m. std_map_modify (key i) d (f i) m) (xs @ [x]) [] =
        std_map_modify (key x) d (f x) (map (\<lambda>v. (v, ?g v)) (sorted_list_of_set ?A))"
    using snoc.IH by simp
  also have "\<dots> = map (\<lambda>v. (v, if v = key x then f x (if key x \<in> set (sorted_list_of_set ?A) then ?g (key x) else d) else ?g v))
       (if key x \<in> set (sorted_list_of_set ?A) then sorted_list_of_set ?A else insort (key x) (sorted_list_of_set ?A))"
    by (rule std_map_modify_tabulate[OF ss])
  also have "\<dots> = map (\<lambda>v. (v, fold f (filter (\<lambda>i. key i = v) (xs @ [x])) d))
       (sorted_list_of_set (key ` set (xs @ [x])))"
    by (simp only: set_sorted_list_of_set[OF fin] ins vals)
  finally show ?case .
qed

lemma fold_snoc_id: "fold (\<lambda>i g. g @ [i]) ys acc = acc @ ys"
  by (induction ys arbitrary: acc) auto

lemma fold_Suc_length: "fold (\<lambda>i. Suc) ys n = n + length ys"
  by (induction ys arbitrary: n) auto

lemma groupByValue_eq:
  "groupByValue dt indices col =
   map (\<lambda>v. (v, filter (\<lambda>i. cell dt i col = v) indices))
       (sorted_list_of_set ((\<lambda>i. cell dt i col) ` set indices))"
  unfolding groupByValue_def
  using fold_std_map_modify[of "\<lambda>i. cell dt i col" "[]" "\<lambda>i g. g @ [i]" indices]
  by (simp add: fold_snoc_id)

lemma countValues_eq:
  "countValues dt indices col =
   map (\<lambda>v. (v, length (filter (\<lambda>i. cell dt i col = v) indices)))
       (sorted_list_of_set ((\<lambda>i. cell dt i col) ` set indices))"
  unfolding countValues_def
  using fold_std_map_modify[of "\<lambda>i. cell dt i col" 0 "\<lambda>i. Suc" indices]
  by (simp add: fold_Suc_length)

subsection \<open>The three kinds of node that \<open>buildTree\<close> returns\<close>

lemma buildTree_empty: "buildTree dt [] used = leaf_node ''Unknown''"
  by (subst buildTree.simps) simp

lemma buildTree_pure:
  "indices \<noteq> [] \<Longrightarrow> allSameClass dt indices \<Longrightarrow>
   buildTree dt indices used =
   leaf_node (cell dt (indices ! 0) (getColumnIndex dt (targetColumn dt)))"
  by (subst buildTree.simps) simp

lemma buildTree_majority:
  "indices \<noteq> [] \<Longrightarrow> \<not> allSameClass dt indices \<Longrightarrow> findBestFeature dt indices used = [] \<Longrightarrow>
   buildTree dt indices used = leaf_node (getMostCommonClass dt indices)"
  by (subst buildTree.simps) simp

lemma buildTree_decision:
  assumes "indices \<noteq> []" "\<not> allSameClass dt indices" "findBestFeature dt indices used = f" "f \<noteq> []"
  shows "buildTree dt indices used =
     TreeNode f [] [] False
       (map (\<lambda>v. set_value v
               (buildTree dt (filter (\<lambda>i. cell dt i (getColumnIndex dt f) = v) indices)
                  (insert f used)))
            (sorted_list_of_set ((\<lambda>i. cell dt i (getColumnIndex dt f)) ` set indices)))"
  using assms by (subst buildTree.simps) (simp add: groupByValue_eq comp_def)

lemma set_value_sel [simp]:
  "feature (set_value v n) = feature n" "value' (set_value v n) = v"
  "prediction (set_value v n) = prediction n" "isLeaf (set_value v n) = isLeaf n"
  "children (set_value v n) = children n"
  by (simp_all add: set_value_def)

lemma leaf_node_sel [simp]:
  "feature (leaf_node p) = []" "value' (leaf_node p) = []"
  "prediction (leaf_node p) = p" "isLeaf (leaf_node p) = True"
  "children (leaf_node p) = []"
  by (simp_all add: leaf_node_def)

lemma nodes_unfold: "nodes n = n # concat (map nodes (children n))"
  by (cases n) simp

lemma depth_unfold: "depth n = fold max (map (\<lambda>c. Suc (depth c)) (children n)) 0"
  by (cases n) simp

lemma path_features_unfold:
  "path_features n =
     (if isLeaf n then [[]]
      else concat (map (\<lambda>c. map ((#) (feature n)) (path_features c)) (children n)))"
  by (cases n) simp

lemma nodes_set_value: "set (nodes (set_value v n)) \<subseteq> insert (set_value v n) (set (nodes n))"
  by (cases n) (auto simp add: set_value_def)

lemma depth_set_value [simp]: "depth (set_value v n) = depth n"
  by (subst depth_unfold, subst (2) depth_unfold) simp

lemma path_features_set_value [simp]: "path_features (set_value v n) = path_features n"
  by (subst path_features_unfold, subst (2) path_features_unfold) simp

lemma predict_unfold:
  "predict n inst =
     (if isLeaf n then prediction n
      else case inst (feature n) of
             None \<Rightarrow> ''Unknown''
           | Some featureValue \<Rightarrow> predict_children (children n) featureValue inst)"
  by (cases n) (simp split: option.splits)

lemma predict_set_value [simp]: "predict (set_value v n) inst = predict n inst"
  by (cases n) (simp add: set_value_def)

lemma buildTree_cases:
  obtains (Empty) "indices = []" "buildTree dt indices used = leaf_node ''Unknown''"
  | (Pure) "indices \<noteq> []" "allSameClass dt indices"
      "buildTree dt indices used = leaf_node (cell dt (indices ! 0) (getColumnIndex dt (targetColumn dt)))"
  | (Majority) "indices \<noteq> []" "\<not> allSameClass dt indices" "findBestFeature dt indices used = []"
      "buildTree dt indices used = leaf_node (getMostCommonClass dt indices)"
  | (Decision) "indices \<noteq> []" "\<not> allSameClass dt indices" "findBestFeature dt indices used \<noteq> []"
      "buildTree dt indices used =
        TreeNode (findBestFeature dt indices used) [] [] False
         (map (\<lambda>v. set_value v
               (buildTree dt (filter (\<lambda>i. cell dt i (getColumnIndex dt (findBestFeature dt indices used)) = v) indices)
                  (insert (findBestFeature dt indices used) used)))
            (sorted_list_of_set ((\<lambda>i. cell dt i (getColumnIndex dt (findBestFeature dt indices used))) ` set indices)))"
proof (cases "indices = []")
  case True
  then show ?thesis using Empty buildTree_empty by simp
next
  case ne: False
  show ?thesis
  proof (cases "allSameClass dt indices")
    case True
    then show ?thesis using Pure ne buildTree_pure by simp
  next
    case np: False
    show ?thesis
    proof (cases "findBestFeature dt indices used = []")
      case True
      then show ?thesis using Majority ne np buildTree_majority by simp
    next
      case False
      then show ?thesis using Decision ne np buildTree_decision[OF ne np refl False] by simp
    qed
  qed
qed

lemma buildTree_induct' [consumes 0, case_names Empty Pure Majority Decision]:
  assumes "\<And>used. P [] used (leaf_node ''Unknown'')"
    and "\<And>indices used. indices \<noteq> [] \<Longrightarrow> allSameClass dt indices \<Longrightarrow>
           P indices used (leaf_node (cell dt (indices ! 0) (getColumnIndex dt (targetColumn dt))))"
    and "\<And>indices used. indices \<noteq> [] \<Longrightarrow> \<not> allSameClass dt indices \<Longrightarrow>
           findBestFeature dt indices used = [] \<Longrightarrow>
           P indices used (leaf_node (getMostCommonClass dt indices))"
    and "\<And>indices used f col vs sub.
           indices \<noteq> [] \<Longrightarrow> \<not> allSameClass dt indices \<Longrightarrow>
           f = findBestFeature dt indices used \<Longrightarrow> f \<noteq> [] \<Longrightarrow>
           col = getColumnIndex dt f \<Longrightarrow>
           vs = sorted_list_of_set ((\<lambda>i. cell dt i col) ` set indices) \<Longrightarrow>
           sub = (\<lambda>v. filter (\<lambda>i. cell dt i col = v) indices) \<Longrightarrow>
           (\<And>v. v \<in> set vs \<Longrightarrow> P (sub v) (insert f used) (buildTree dt (sub v) (insert f used))) \<Longrightarrow>
           P indices used
             (TreeNode f [] [] False (map (\<lambda>v. set_value v (buildTree dt (sub v) (insert f used))) vs))"
  shows "P indices used (buildTree dt indices used)"
  using assms
proof (induction dt indices used rule: buildTree.induct)
  case (1 dt indices used)
  note rules = "1.prems"
  show ?case
  proof (cases rule: buildTree_cases[of indices dt used])
    case Empty
    show ?thesis unfolding Empty(1) buildTree_empty by (rule rules(1))
  next
    case Pure
    show ?thesis unfolding Pure(3) by (rule rules(2)[OF Pure(1,2)])
  next
    case Majority
    show ?thesis unfolding Majority(4) by (rule rules(3)[OF Majority(1,2,3)])
  next
    case Decision
    let ?f = "findBestFeature dt indices used"
    let ?col = "getColumnIndex dt ?f"
    let ?vs = "sorted_list_of_set ((\<lambda>i. cell dt i ?col) ` set indices)"
    let ?sub = "\<lambda>v. filter (\<lambda>i. cell dt i ?col = v) indices"
    have ih: "P (?sub v) (insert ?f used) (buildTree dt (?sub v) (insert ?f used))" if "v \<in> set ?vs" for v
    proof -
      have mem: "(v, ?sub v) \<in> set (groupByValue dt indices ?col)"
        using that by (simp add: groupByValue_eq)
      have "P (snd (v, ?sub v)) (insert ?f used) (buildTree dt (snd (v, ?sub v)) (insert ?f used))"
        apply (rule "1.IH"[OF Decision(1,2,3) mem])
           apply (fact rules(1))
          apply (fact rules(2))
         apply (fact rules(3))
        apply (fact rules(4))
        done
      then show ?thesis by (simp only: snd_conv)
    qed
    show ?thesis
      unfolding Decision(4)
      by (rule rules(4)[OF Decision(1,2) refl Decision(3) refl refl refl ih])
  qed
qed

subsection \<open>A small dataset for the witnesses\<close>

definition weather :: DecisionTree where
  "weather = \<lparr>data = [[''Sunny'', ''No''], [''Rain'', ''Yes''], [''Sunny'', ''No'']],
              headers = [''Outlook'', ''Play''], targetColumn = ''Play'', root = None\<rparr>"

lemma weather_valid: "valid_dataset weather" "valid_subset weather [0, 1, 2]"
  by (simp_all add: valid_dataset_def valid_subset_def weather_def)

subsection \<open>Edge values\<close>

lemma buildTree_children_distinct:
  "n \<in> set (nodes (buildTree dt indices used)) \<Longrightarrow> distinct (map value' (children n))"
proof (induction indices used arbitrary: n rule: buildTree_induct'[where dt = dt])
  case (Decision indices used f col vs sub)
  let ?t = "TreeNode f [] [] False (map (\<lambda>v. set_value v (buildTree dt (sub v) (insert f used))) vs)"
  from Decision.prems consider "n = ?t"
    | v where "v \<in> set vs" "n \<in> set (nodes (set_value v (buildTree dt (sub v) (insert f used))))"
    by auto
  then show ?case
  proof cases
    case 1
    have "map value' (children ?t) = vs" by (simp add: comp_def)
    moreover have "distinct vs" using Decision.hyps(6) by simp
    ultimately show ?thesis using 1 by simp
  next
    case 2
    let ?c = "buildTree dt (sub v) (insert f used)"
    from 2(2) nodes_set_value[of v ?c] have "n = set_value v ?c \<or> n \<in> set (nodes ?c)" by auto
    then show ?thesis
    proof
      assume "n = set_value v ?c"
      moreover have "?c \<in> set (nodes ?c)" by (subst nodes_unfold) simp
      ultimately show ?thesis using Decision.IH[OF 2(1)] by simp
    next
      assume "n \<in> set (nodes ?c)"
      then show ?thesis using Decision.IH[OF 2(1)] by simp
    qed
  qed
qed (simp_all add: leaf_node_def)

lemma distinct_map_filter_le_1:
  "distinct (map f xs) \<Longrightarrow> length (filter (\<lambda>x. f x = v) xs) \<le> 1"
  by (induction xs) (auto simp: filter_empty_conv image_iff)

text \<open>C10: in a tree that \<open>buildTree\<close> returns, the edge values of the children of any
  one node are pairwise distinct, so at most one child of the node carries a given value
  of the instance.\<close>

theorem buildTree_edge_values_distinct:
  assumes "valid_dataset dt" and "valid_subset dt indices"
    and "n \<in> set (nodes (buildTree dt indices used))"
  shows "distinct (map value' (children n)) \<and>
         length (filter (\<lambda>c. value' c = featureValue) (children n)) \<le> 1"
proof -
  have d: "distinct (map value' (children n))"
    by (rule buildTree_children_distinct[OF assms(3)])
  from d distinct_map_filter_le_1[OF d, of featureValue] show ?thesis by simp
qed

theorem buildTree_edge_values_distinct_witness:
  "valid_dataset weather \<and> valid_subset weather [0, 1, 2] \<and>
   buildTree weather [0, 1, 2] {} \<in> set (nodes (buildTree weather [0, 1, 2] {})) \<and>
   distinct (map value' (children (buildTree weather [0, 1, 2] {}))) \<and>
   length (filter (\<lambda>c. value' c = ''Rain'') (children (buildTree weather [0, 1, 2] {}))) \<le> 1"
proof -
  have n: "buildTree weather [0, 1, 2] {} \<in> set (nodes (buildTree weather [0, 1, 2] {}))"
    by (subst nodes_unfold) simp
  from buildTree_edge_values_distinct[OF weather_valid n, of "''Rain''"] weather_valid n
  show ?thesis by simp
qed

subsection \<open>Depth\<close>

lemma fold_max_le: "fold max xs a \<le> (b::nat) \<longleftrightarrow> a \<le> b \<and> (\<forall>x\<in>set xs. x \<le> b)"
  by (induction xs arbitrary: a) auto

lemma eligible_insert:
  assumes "f \<in> set hs" "f \<noteq> t" "f \<notin> used"
  shows "card {h \<in> set hs. h \<noteq> t \<and> h \<notin> used} =
         Suc (card {h \<in> set hs. h \<noteq> t \<and> h \<notin> insert f used})"
proof -
  let ?E = "{h \<in> set hs. h \<noteq> t \<and> h \<notin> used}"
  have eq: "{h \<in> set hs. h \<noteq> t \<and> h \<notin> insert f used} = ?E - {f}" by auto
  have mem: "f \<in> ?E" using assms by simp
  have fin: "finite ?E" by simp
  from card_Suc_Diff1[OF fin mem] show ?thesis unfolding eq by simp
qed

lemma buildTree_depth_eligible:
  "depth (buildTree dt indices used)
     \<le> card {h \<in> set (headers dt). h \<noteq> targetColumn dt \<and> h \<notin> used}"
proof (induction indices used rule: buildTree_induct'[where dt = dt])
  case (Decision indices used f col vs sub)
  from findBestFeature_eligible[of dt indices used] Decision.hyps(3,4)
  have f: "f \<in> set (headers dt)" "f \<noteq> targetColumn dt" "f \<notin> used" by auto
  show ?case
    using Decision.IH by (simp add: fold_max_le eligible_insert[OF f])
qed (simp_all add: leaf_node_def)

lemma card_eligible_le:
  "card {h \<in> set hs. h \<noteq> t \<and> h \<notin> used} \<le> length (filter (\<lambda>h. h \<noteq> t) hs)"
proof -
  have "{h \<in> set hs. h \<noteq> t \<and> h \<notin> used} \<subseteq> set (filter (\<lambda>h. h \<noteq> t) hs)" by auto
  then have "card {h \<in> set hs. h \<noteq> t \<and> h \<notin> used} \<le> card (set (filter (\<lambda>h. h \<noteq> t) hs))"
    by (intro card_mono) auto
  also have "\<dots> \<le> length (filter (\<lambda>h. h \<noteq> t) hs)" by (rule card_length)
  finally show ?thesis .
qed

text \<open>C8: \<open>buildTree\<close> is a total function (its termination is proved above: every
  recursive call has one unused header fewer), and the depth of the tree it returns is
  at most the number of eligible features, the headers that are neither the target nor
  used, which is at most the number of feature columns.\<close>

theorem buildTree_depth_bounded:
  assumes "valid_dataset dt" and "valid_subset dt indices"
  shows "depth (buildTree dt indices used)
           \<le> card {h \<in> set (headers dt). h \<noteq> targetColumn dt \<and> h \<notin> used} \<and>
         depth (buildTree dt indices used)
           \<le> length (filter (\<lambda>h. h \<noteq> targetColumn dt) (headers dt))"
  using buildTree_depth_eligible[of dt indices used]
    card_eligible_le[of "headers dt" "targetColumn dt" used]
  by linarith

theorem buildTree_depth_bounded_witness:
  "valid_dataset weather \<and> valid_subset weather [0, 1, 2] \<and>
   depth (buildTree weather [0, 1, 2] {}) \<le> 1"
proof -
  have "length (filter (\<lambda>h. h \<noteq> targetColumn weather) (headers weather)) = 1"
    by (simp add: weather_def)
  with buildTree_depth_bounded[OF weather_valid, of "{}"] weather_valid
  show ?thesis by simp
qed

subsection \<open>Features along a path\<close>

lemma buildTree_paths:
  "p \<in> set (path_features (buildTree dt indices used)) \<Longrightarrow>
   distinct p \<and> set p \<inter> used = {} \<and> set p \<subseteq> set (headers dt) - {targetColumn dt}"
proof (induction indices used arbitrary: p rule: buildTree_induct'[where dt = dt])
  case (Decision indices used f col vs sub)
  from findBestFeature_eligible[of dt indices used] Decision.hyps(3,4)
  have f: "f \<in> set (headers dt)" "f \<noteq> targetColumn dt" "f \<notin> used" by auto
  from Decision.prems obtain v q where v: "v \<in> set vs"
    and q: "q \<in> set (path_features (buildTree dt (sub v) (insert f used)))" and p: "p = f # q"
    by auto
  from Decision.IH[OF v q] have "distinct q" "set q \<inter> insert f used = {}"
    "set q \<subseteq> set (headers dt) - {targetColumn dt}" by auto
  with f p show ?case by auto
qed (simp_all add: leaf_node_def)

lemma buildTree_not_leaf:
  assumes "\<not> isLeaf (buildTree dt indices used)"
  shows "indices \<noteq> []" "\<not> allSameClass dt indices" "findBestFeature dt indices used \<noteq> []"
proof -
  show "indices \<noteq> []" using assms buildTree_empty[of dt used] by auto
  then show "\<not> allSameClass dt indices" using assms buildTree_pure[of indices dt used] by auto
  then show "findBestFeature dt indices used \<noteq> []"
    using assms \<open>indices \<noteq> []\<close> buildTree_majority[of indices dt used] by auto
qed

lemma buildTree_children:
  assumes "\<not> isLeaf (buildTree dt indices used)"
  shows "children (buildTree dt indices used) =
     map (\<lambda>group. set_value (fst group)
            (buildTree dt (snd group) (insert (feature (buildTree dt indices used)) used)))
         (groupByValue dt indices (getColumnIndex dt (feature (buildTree dt indices used))))"
proof -
  note nl = buildTree_not_leaf[OF assms]
  have eq: "buildTree dt indices used =
      TreeNode (findBestFeature dt indices used) [] [] False
             (map (\<lambda>group. set_value (fst group)
                     (buildTree dt (snd group)
                        (insert (findBestFeature dt indices used) used)))
                  (groupByValue dt indices
                     (getColumnIndex dt (findBestFeature dt indices used))))"
    using nl by (subst buildTree.simps) simp
  have f: "feature (buildTree dt indices used) = findBestFeature dt indices used"
    by (subst eq) simp
  show ?thesis unfolding f by (subst eq) simp
qed

text \<open>C9: on every path from the root of a built tree to a leaf no feature stands at two
  decision nodes (nor does a feature of \<open>usedFeatures\<close> appear), and every child of a
  decision node is the tree built for its own group with the one set
  \<open>usedFeatures \<union> {bestFeature}\<close> that the parent passes by value, whatever the
  recursion did in the siblings.\<close>

theorem buildTree_no_feature_twice:
  assumes "valid_dataset dt" and "valid_subset dt indices"
  shows "(\<forall>p \<in> set (path_features (buildTree dt indices used)). distinct p \<and> set p \<inter> used = {}) \<and>
         (\<not> isLeaf (buildTree dt indices used) \<longrightarrow>
            children (buildTree dt indices used) =
              map (\<lambda>group. set_value (fst group)
                     (buildTree dt (snd group) (insert (feature (buildTree dt indices used)) used)))
                  (groupByValue dt indices
                     (getColumnIndex dt (feature (buildTree dt indices used)))))"
  using buildTree_paths[of _ dt indices used] buildTree_children[of dt indices used]
  by blast

subsection \<open>Counting\<close>

lemma sum_length_filter_eq:
  "finite A \<Longrightarrow> f ` set xs \<subseteq> A \<Longrightarrow>
   (\<Sum>v\<in>A. length (filter (\<lambda>i. f i = v) xs)) = length xs"
proof (induction xs)
  case Nil
  then show ?case by simp
next
  case (Cons x xs)
  have "(\<Sum>v\<in>A. length (filter (\<lambda>i. f i = v) (x # xs)))
      = (\<Sum>v\<in>A. (if v = f x then 1 else 0) + length (filter (\<lambda>i. f i = v) xs))"
    by (intro sum.cong) auto
  also have "\<dots> = (\<Sum>v\<in>A. if v = f x then 1 else 0) + (\<Sum>v\<in>A. length (filter (\<lambda>i. f i = v) xs))"
    by (simp add: sum.distrib)
  also have "(\<Sum>v\<in>A. if v = f x then 1 else 0) = (1::nat)"
    using Cons.prems by simp
  also have "(\<Sum>v\<in>A. length (filter (\<lambda>i. f i = v) xs)) = length xs"
    using Cons by simp
  finally show ?case by simp
qed

lemma sum_real_length_filter_eq:
  "finite A \<Longrightarrow> f ` set xs \<subseteq> A \<Longrightarrow>
   (\<Sum>v\<in>A. real (length (filter (\<lambda>i. f i = v) xs))) = real (length xs)"
  using sum_length_filter_eq[of A f xs] by (simp flip: of_nat_sum)

lemma filter_pos_iff: "0 < length (filter (\<lambda>i. f i = v) xs) \<longleftrightarrow> v \<in> f ` set xs"
  by (auto simp: filter_empty_conv)

subsection \<open>Entropy as a sum\<close>

lemma fold_entropy_sum:
  "fold (\<lambda>pair entropy. let prob = real (snd pair) / real n
                   in if prob > 0 then entropy - prob * log 2 prob else entropy) ps a
   = a - (\<Sum>pair\<leftarrow>ps. let prob = real (snd pair) / real n
                        in if prob > 0 then prob * log 2 prob else 0)"
  by (induction ps arbitrary: a) (auto simp: Let_def)

lemma fold_weighted_sum:
  "fold (\<lambda>group w. w + h group) gs (a::real) = a + (\<Sum>group\<leftarrow>gs. h group)"
  by (induction gs arbitrary: a) auto

lemma sum_list_tabulate_sorted:
  "finite A \<Longrightarrow>
   sum_list (map (h \<circ> (\<lambda>v. (v, t v))) (sorted_list_of_set A)) = (\<Sum>v\<in>A. h (v, t v))"
  by (simp add: sum_list_distinct_conv_sum_set comp_def)

lemma calculateEntropy_sum:
  assumes "indices \<noteq> []"
  shows "calculateEntropy dt indices =
     - (\<Sum>v\<in>(\<lambda>i. cell dt i (getColumnIndex dt (targetColumn dt))) ` set indices.
          real (length (filter (\<lambda>i. cell dt i (getColumnIndex dt (targetColumn dt)) = v) indices))
            / real (length indices)
          * log 2 (real (length (filter (\<lambda>i. cell dt i (getColumnIndex dt (targetColumn dt)) = v) indices))
            / real (length indices)))"
proof -
  let ?cls = "\<lambda>i. cell dt i (getColumnIndex dt (targetColumn dt))"
  let ?cnt = "\<lambda>v. length (filter (\<lambda>i. ?cls i = v) indices)"
  let ?n = "length indices"
  have n: "0 < ?n" using assms by simp
  have "calculateEntropy dt indices =
      - (\<Sum>v\<in>?cls ` set indices. let prob = real (?cnt v) / real ?n
                        in if prob > 0 then prob * log 2 prob else 0)"
    using assms
    by (simp add: calculateEntropy_def countValues_eq fold_entropy_sum sum_list_tabulate_sorted)
  also have "(\<Sum>v\<in>?cls ` set indices. let prob = real (?cnt v) / real ?n
                        in if prob > 0 then prob * log 2 prob else 0)
     = (\<Sum>v\<in>?cls ` set indices. real (?cnt v) / real ?n * log 2 (real (?cnt v) / real ?n))"
  proof (intro sum.cong refl)
    fix v assume "v \<in> ?cls ` set indices"
    then have "0 < ?cnt v" by (simp only: filter_pos_iff)
    with n have "0 < real (?cnt v) / real ?n" by simp
    then show "(let prob = real (?cnt v) / real ?n in if prob > 0 then prob * log 2 prob else 0)
        = real (?cnt v) / real ?n * log 2 (real (?cnt v) / real ?n)"
      by (simp add: Let_def)
  qed
  finally show ?thesis .
qed

subsection \<open>Sign of the entropy\<close>

lemma plogp_nonpos:
  assumes "0 < p" "p \<le> (1::real)"
  shows "p * log 2 p \<le> 0"
proof -
  have "log 2 p \<le> 0" using assms by simp
  with assms(1) show ?thesis by (simp add: mult_le_0_iff)
qed

lemma plogp_neg:
  assumes "0 < p" "p < (1::real)"
  shows "p * log 2 p < 0"
proof -
  have "log 2 p < 0" using assms by simp
  with assms(1) show ?thesis by (simp add: mult_less_0_iff)
qed

lemma allSameClass_iff:
  "allSameClass dt indices \<longleftrightarrow>
   (\<forall>i\<in>set indices. \<forall>j\<in>set indices.
      cell dt i (getColumnIndex dt (targetColumn dt)) = cell dt j (getColumnIndex dt (targetColumn dt)))"
proof (cases indices)
  case Nil
  then show ?thesis by (simp add: allSameClass_def)
next
  case (Cons a as)
  then show ?thesis by (auto simp: allSameClass_def list_all_iff Let_def)
qed

lemma calculateEntropy_nonneg: "0 \<le> calculateEntropy dt indices"
proof (cases "indices = []")
  case True
  then show ?thesis by (simp add: calculateEntropy_def)
next
  case False
  let ?cls = "\<lambda>i. cell dt i (getColumnIndex dt (targetColumn dt))"
  let ?cnt = "\<lambda>v. length (filter (\<lambda>i. ?cls i = v) indices)"
  let ?n = "length indices"
  have n: "0 < ?n" using False by simp
  have "(\<Sum>v\<in>?cls ` set indices. real (?cnt v) / real ?n * log 2 (real (?cnt v) / real ?n)) \<le> 0"
  proof (rule sum_nonpos)
    fix v assume "v \<in> ?cls ` set indices"
    then have "0 < ?cnt v" by (simp only: filter_pos_iff)
    moreover have "?cnt v \<le> ?n" by simp
    ultimately have "0 < real (?cnt v) / real ?n" "real (?cnt v) / real ?n \<le> 1"
      using n by simp_all
    then show "real (?cnt v) / real ?n * log 2 (real (?cnt v) / real ?n) \<le> 0"
      by (rule plogp_nonpos)
  qed
  then show ?thesis by (simp add: calculateEntropy_sum[OF False])
qed

lemma calculateEntropy_pure:
  assumes "allSameClass dt indices"
  shows "calculateEntropy dt indices = 0"
proof (cases "indices = []")
  case True
  then show ?thesis by (simp add: calculateEntropy_def)
next
  case False
  let ?cls = "\<lambda>i. cell dt i (getColumnIndex dt (targetColumn dt))"
  let ?cnt = "\<lambda>v. length (filter (\<lambda>i. ?cls i = v) indices)"
  let ?n = "length indices"
  have n: "0 < ?n" using False by simp
  have "(\<Sum>v\<in>?cls ` set indices. real (?cnt v) / real ?n * log 2 (real (?cnt v) / real ?n)) = 0"
  proof (rule sum.neutral, rule ballI)
    fix v assume "v \<in> ?cls ` set indices"
    then obtain j where j: "j \<in> set indices" "v = ?cls j" by blast
    have "\<forall>i\<in>set indices. ?cls i = v"
      using assms j unfolding allSameClass_iff by blast
    then have "filter (\<lambda>i. ?cls i = v) indices = indices" by (subst filter_id_conv)
    then have cnt: "?cnt v = ?n" by (rule arg_cong)
    have "real (?cnt v) / real ?n = 1" using n by (simp only: cnt) simp
    then show "real (?cnt v) / real ?n * log 2 (real (?cnt v) / real ?n) = 0" by simp
  qed
  then show ?thesis by (simp add: calculateEntropy_sum[OF False])
qed

lemma calculateEntropy_mixed:
  assumes "\<not> allSameClass dt indices"
  shows "0 < calculateEntropy dt indices"
proof -
  let ?cls = "\<lambda>i. cell dt i (getColumnIndex dt (targetColumn dt))"
  let ?cnt = "\<lambda>v. length (filter (\<lambda>i. ?cls i = v) indices)"
  let ?n = "length indices"
  let ?summand = "\<lambda>v. real (?cnt v) / real ?n * log 2 (real (?cnt v) / real ?n)"
  from assms obtain i j where ij: "i \<in> set indices" "j \<in> set indices" "?cls i \<noteq> ?cls j"
    unfolding allSameClass_iff by blast
  then have ne: "indices \<noteq> []" by auto
  then have n: "0 < ?n" by simp
  have le: "?summand v \<le> 0" if "v \<in> ?cls ` set indices" for v
  proof -
    from that have "0 < ?cnt v" by (simp only: filter_pos_iff)
    moreover have "?cnt v \<le> ?n" by simp
    ultimately have "0 < real (?cnt v) / real ?n" "real (?cnt v) / real ?n \<le> 1"
      using n by simp_all
    then show ?thesis by (rule plogp_nonpos)
  qed
  have lt: "?summand (?cls i) < 0"
  proof -
    have "0 < ?cnt (?cls i)" using ij(1) by (simp only: filter_pos_iff) simp
    moreover have "?cnt (?cls i) < ?n"
      using ij(2,3) by (intro length_filter_less[of j]) auto
    ultimately have "0 < real (?cnt (?cls i)) / real ?n" "real (?cnt (?cls i)) / real ?n < 1"
      using n by simp_all
    then show ?thesis by (rule plogp_neg)
  qed
  have "(\<Sum>v\<in>?cls ` set indices. ?summand v)
      = ?summand (?cls i) + (\<Sum>v\<in>?cls ` set indices - {?cls i}. ?summand v)"
    using ij(1) by (intro sum.remove) auto
  moreover have "(\<Sum>v\<in>?cls ` set indices - {?cls i}. ?summand v) \<le> 0"
    by (rule sum_nonpos) (use le in auto)
  ultimately have "(\<Sum>v\<in>?cls ` set indices. ?summand v) < 0" using lt by linarith
  then show ?thesis by (simp add: calculateEntropy_sum[OF ne])
qed

subsection \<open>The gain is not negative\<close>

text \<open>The step of the inequality: \<open>ln t \<le> t - 1\<close>, in the form needed for one cell of the
  table of counts (\<open>a\<close> rows of the group \<open>u\<close> have the class \<open>v\<close>, the group has \<open>b\<close> rows,
  the class has \<open>c\<close> rows, the subset has \<open>n\<close> rows).\<close>

lemma gain_cell_bound:
  fixes a b c n :: real
  assumes "0 \<le> a" "0 < b" "0 < c" "0 < n" "a = 0 \<or> 0 < a"
  shows "(a / n - b * c / (n * n)) / ln 2 \<le> a / n * (log 2 (a / b) - log 2 (c / n))"
proof (cases "a = 0")
  case True
  have "0 \<le> b * c / (n * n) / ln 2" using assms by simp
  with True show ?thesis by simp
next
  case False
  with assms have a: "0 < a" by simp
  define t where "t = b * c / (a * n)"
  have t: "0 < t" using a assms by (simp add: t_def)
  have "0 < a / b" "0 < c / n" using a assms by simp_all
  then have "log 2 (a / b) - log 2 (c / n) = log 2 ((a / b) / (c / n))"
    by (simp only: log_divide_pos)
  also have "(a / b) / (c / n) = 1 / t" using a assms by (simp add: t_def)
  also have "log 2 (1 / t) = - ln t / ln 2"
    using t by (simp add: log_def ln_divide_pos)
  finally have eq: "log 2 (a / b) - log 2 (c / n) = - ln t / ln 2" .
  have "ln t \<le> t - 1" using t by (rule ln_le_minus_one)
  then have "1 - t \<le> - ln t" by simp
  moreover have "0 \<le> ln (2::real)" by simp
  ultimately have "(1 - t) / ln 2 \<le> - ln t / ln 2" by (rule divide_right_mono)
  then have "a / n * ((1 - t) / ln 2) \<le> a / n * (- ln t / ln 2)"
    using a assms by (intro mult_left_mono) simp_all
  moreover have "a / n * ((1 - t) / ln 2) = (a / n - b * c / (n * n)) / ln 2"
    using a assms by (simp add: t_def field_simps)
  ultimately show ?thesis by (simp only: eq)
qed

text \<open>The table of counts of a list \<open>xs\<close> by a class \<open>c\<close> and a group \<open>g\<close>: the entropy of
  the classes is at least the weighted entropy of the classes within the groups.\<close>

lemma class_sum_le_group_sum:
  fixes xs :: "'a list" and c :: "'a \<Rightarrow> 'c" and g :: "'a \<Rightarrow> 'g"
  assumes "xs \<noteq> []"
  defines "n \<equiv> real (length xs)"
    and "N \<equiv> \<lambda>v. real (length (filter (\<lambda>i. c i = v) xs))"
    and "M \<equiv> \<lambda>u. real (length (filter (\<lambda>i. g i = u) xs))"
    and "A \<equiv> \<lambda>u v. real (length (filter (\<lambda>i. c i = v) (filter (\<lambda>i. g i = u) xs)))"
  shows "(\<Sum>v\<in>c ` set xs. N v / n * log 2 (N v / n))
       \<le> (\<Sum>u\<in>g ` set xs. \<Sum>v\<in>c ` set xs. A u v / n * log 2 (A u v / M u))"
proof -
  let ?C = "c ` set xs" and ?G = "g ` set xs"
  have n: "0 < n" using assms(1) by (simp add: n_def)
  have Npos: "0 < N v" if "v \<in> ?C" for v
    using that filter_pos_iff[of c v xs] by (simp add: N_def)
  have Mpos: "0 < M u" if "u \<in> ?G" for u
    using that filter_pos_iff[of g u xs] by (simp add: M_def)
  have A0: "0 \<le> A u v" "A u v = 0 \<or> 0 < A u v" for u v
    by (auto simp: A_def)
  have sumN: "(\<Sum>v\<in>?C. N v) = n"
    unfolding N_def n_def by (rule sum_real_length_filter_eq) simp_all
  have sumM: "(\<Sum>u\<in>?G. M u) = n"
    unfolding M_def n_def by (rule sum_real_length_filter_eq) simp_all
  have sumAv: "(\<Sum>v\<in>?C. A u v) = M u" for u
    unfolding A_def M_def by (rule sum_real_length_filter_eq) auto
  have comm: "A u v = real (length (filter (\<lambda>i. g i = u) (filter (\<lambda>i. c i = v) xs)))" for u v
    unfolding A_def by (simp add: conj_commute)
  have sumAu: "(\<Sum>u\<in>?G. A u v) = N v" for v
    unfolding comm N_def by (rule sum_real_length_filter_eq) auto
  have lhs: "(\<Sum>v\<in>?C. N v / n * log 2 (N v / n))
      = (\<Sum>u\<in>?G. \<Sum>v\<in>?C. A u v / n * log 2 (N v / n))"
  proof -
    have "(\<Sum>v\<in>?C. N v / n * log 2 (N v / n))
        = (\<Sum>v\<in>?C. \<Sum>u\<in>?G. A u v / n * log 2 (N v / n))"
      by (simp only: sumAu[symmetric] sum_divide_distrib sum_distrib_right)
    also have "\<dots> = (\<Sum>u\<in>?G. \<Sum>v\<in>?C. A u v / n * log 2 (N v / n))"
      by (rule sum.swap)
    finally show ?thesis .
  qed
  have cellb: "(A u v / n - M u * N v / (n * n)) / ln 2
        \<le> A u v / n * (log 2 (A u v / M u) - log 2 (N v / n))"
    if "u \<in> ?G" "v \<in> ?C" for u v
    by (rule gain_cell_bound[OF A0(1) Mpos[OF that(1)] Npos[OF that(2)] n A0(2)])
  have one: "(\<Sum>u\<in>?G. \<Sum>v\<in>?C. A u v / n) = 1"
  proof -
    have "(\<Sum>u\<in>?G. \<Sum>v\<in>?C. A u v / n) = (\<Sum>u\<in>?G. M u / n)"
      by (simp only: sum_divide_distrib[symmetric] sumAv)
    also have "\<dots> = n / n" by (simp only: sum_divide_distrib[symmetric] sumM)
    finally show ?thesis using n by simp
  qed
  have two: "(\<Sum>u\<in>?G. \<Sum>v\<in>?C. M u * N v / (n * n)) = 1"
  proof -
    have "(\<Sum>u\<in>?G. \<Sum>v\<in>?C. M u * N v / (n * n)) = (\<Sum>u\<in>?G. M u * n / (n * n))"
      by (simp only: sum_divide_distrib[symmetric] sum_distrib_left[symmetric] sumN)
    also have "\<dots> = n * n / (n * n)"
      by (simp only: sum_divide_distrib[symmetric] sum_distrib_right[symmetric] sumM)
    finally show ?thesis using n by simp
  qed
  have "(\<Sum>u\<in>?G. \<Sum>v\<in>?C. (A u v / n - M u * N v / (n * n)) / ln 2)
      = (\<Sum>u\<in>?G. \<Sum>v\<in>?C. A u v / n) / ln 2
        - (\<Sum>u\<in>?G. \<Sum>v\<in>?C. M u * N v / (n * n)) / ln 2"
    by (simp only: diff_divide_distrib sum_subtractf sum_divide_distrib)
  also have "\<dots> = 0" by (simp add: one two)
  finally have "0 = (\<Sum>u\<in>?G. \<Sum>v\<in>?C. (A u v / n - M u * N v / (n * n)) / ln 2)"
    by simp
  also have "\<dots> \<le> (\<Sum>u\<in>?G. \<Sum>v\<in>?C. A u v / n * (log 2 (A u v / M u) - log 2 (N v / n)))"
    by (intro sum_mono cellb)
  also have "\<dots> = (\<Sum>u\<in>?G. \<Sum>v\<in>?C. A u v / n * log 2 (A u v / M u))
                - (\<Sum>u\<in>?G. \<Sum>v\<in>?C. A u v / n * log 2 (N v / n))"
    by (simp only: right_diff_distrib sum_subtractf)
  finally show ?thesis unfolding lhs by simp
qed

lemma calculateInformationGain_sum:
  "calculateInformationGain dt indices feat =
     calculateEntropy dt indices
     - (\<Sum>u\<in>(\<lambda>i. cell dt i (getColumnIndex dt feat)) ` set indices.
          real (length (filter (\<lambda>i. cell dt i (getColumnIndex dt feat) = u) indices))
            / real (length indices)
          * calculateEntropy dt (filter (\<lambda>i. cell dt i (getColumnIndex dt feat) = u) indices))"
  by (simp add: calculateInformationGain_def groupByValue_eq fold_weighted_sum
      sum_list_tabulate_sorted Let_def)

lemma calculateInformationGain_nonneg: "0 \<le> calculateInformationGain dt indices feat"
proof (cases "indices = []")
  case True
  then show ?thesis by (simp add: calculateInformationGain_sum calculateEntropy_def)
next
  case False
  let ?c = "\<lambda>i. cell dt i (getColumnIndex dt (targetColumn dt))"
  let ?g = "\<lambda>i. cell dt i (getColumnIndex dt feat)"
  let ?C = "?c ` set indices" and ?G = "?g ` set indices"
  let ?sub = "\<lambda>u. filter (\<lambda>i. ?g i = u) indices"
  let ?n = "real (length indices)"
  let ?N = "\<lambda>v. real (length (filter (\<lambda>i. ?c i = v) indices))"
  let ?M = "\<lambda>u. real (length (?sub u))"
  let ?A = "\<lambda>u v. real (length (filter (\<lambda>i. ?c i = v) (?sub u)))"
  have n: "0 < ?n" using False by simp
  have group: "?M u / ?n * calculateEntropy dt (?sub u)
      = - (\<Sum>v\<in>?C. ?A u v / ?n * log 2 (?A u v / ?M u))" if "u \<in> ?G" for u
  proof -
    from that have pos: "0 < length (?sub u)" by (simp only: filter_pos_iff)
    then have ne: "?sub u \<noteq> []" by auto
    have "(\<Sum>v\<in>?c ` set (?sub u). ?A u v / ?M u * log 2 (?A u v / ?M u))
        = (\<Sum>v\<in>?C. ?A u v / ?M u * log 2 (?A u v / ?M u))"
    proof (rule sum.mono_neutral_left)
      show "finite ?C" by simp
      show "?c ` set (?sub u) \<subseteq> ?C" by auto
      show "\<forall>v\<in>?C - ?c ` set (?sub u). ?A u v / ?M u * log 2 (?A u v / ?M u) = 0"
      proof
        fix v assume "v \<in> ?C - ?c ` set (?sub u)"
        then have "v \<notin> ?c ` set (?sub u)" by simp
        then have "\<not> 0 < length (filter (\<lambda>i. ?c i = v) (?sub u))"
          by (simp only: filter_pos_iff) simp
        then have "?A u v = 0" by simp
        then show "?A u v / ?M u * log 2 (?A u v / ?M u) = 0" by simp
      qed
    qed
    then have "calculateEntropy dt (?sub u) = - (\<Sum>v\<in>?C. ?A u v / ?M u * log 2 (?A u v / ?M u))"
      by (simp only: calculateEntropy_sum[OF ne])
    then have "?M u / ?n * calculateEntropy dt (?sub u)
        = - (\<Sum>v\<in>?C. ?M u / ?n * (?A u v / ?M u * log 2 (?A u v / ?M u)))"
      by (simp only: sum_distrib_left mult_minus_right)
    also have "(\<Sum>v\<in>?C. ?M u / ?n * (?A u v / ?M u * log 2 (?A u v / ?M u)))
        = (\<Sum>v\<in>?C. ?A u v / ?n * log 2 (?A u v / ?M u))"
      using pos by (intro sum.cong refl) simp
    finally show ?thesis .
  qed
  have "(\<Sum>u\<in>?G. ?M u / ?n * calculateEntropy dt (?sub u))
      = (\<Sum>u\<in>?G. - (\<Sum>v\<in>?C. ?A u v / ?n * log 2 (?A u v / ?M u)))"
    by (intro sum.cong refl group)
  also have "\<dots> = - (\<Sum>u\<in>?G. \<Sum>v\<in>?C. ?A u v / ?n * log 2 (?A u v / ?M u))"
    by (simp only: sum_negf)
  finally have weighted: "(\<Sum>u\<in>?G. ?M u / ?n * calculateEntropy dt (?sub u))
      = - (\<Sum>u\<in>?G. \<Sum>v\<in>?C. ?A u v / ?n * log 2 (?A u v / ?M u))" .
  have "(\<Sum>v\<in>?C. ?N v / ?n * log 2 (?N v / ?n))
       \<le> (\<Sum>u\<in>?G. \<Sum>v\<in>?C. ?A u v / ?n * log 2 (?A u v / ?M u))"
    by (rule class_sum_le_group_sum[OF False])
  then show ?thesis
    unfolding calculateInformationGain_sum weighted calculateEntropy_sum[OF False] by simp
qed

lemma weather_cells:
  "getColumnIndex weather ''Play'' = 1" "getColumnIndex weather ''Outlook'' = 0"
  "cell weather 0 1 = ''No''" "cell weather 1 1 = ''Yes''" "cell weather 2 1 = ''No''"
  "cell weather 0 0 = ''Sunny''" "cell weather 1 0 = ''Rain''" "cell weather 2 0 = ''Sunny''"
  by (simp_all add: getColumnIndex_def cell_def weather_def)

text \<open>C7: the entropy is never negative, it is \<open>0.0\<close> for the empty subset, and it is
  \<open>0\<close> exactly when the subset is empty or all its rows have the same target value. The
  arithmetic is the exact one of the model (\<open>real\<close> for \<^verbatim>\<open>double\<close>).\<close>

theorem calculateEntropy_sign:
  assumes "valid_dataset dt" and "valid_subset dt indices"
  shows "0 \<le> calculateEntropy dt indices \<and>
         calculateEntropy dt [] = 0 \<and>
         (calculateEntropy dt indices = 0 \<longleftrightarrow>
            indices = [] \<or>
            (\<forall>i\<in>set indices. \<forall>j\<in>set indices.
               cell dt i (getColumnIndex dt (targetColumn dt))
                 = cell dt j (getColumnIndex dt (targetColumn dt))))"
proof (intro conjI)
  show "0 \<le> calculateEntropy dt indices" by (rule calculateEntropy_nonneg)
  show "calculateEntropy dt [] = 0" by (simp add: calculateEntropy_def)
  show "calculateEntropy dt indices = 0 \<longleftrightarrow>
            indices = [] \<or>
            (\<forall>i\<in>set indices. \<forall>j\<in>set indices.
               cell dt i (getColumnIndex dt (targetColumn dt))
                 = cell dt j (getColumnIndex dt (targetColumn dt)))"
    unfolding allSameClass_iff[symmetric]
  proof (cases "allSameClass dt indices")
    case True
    with calculateEntropy_pure[OF True] show "calculateEntropy dt indices = 0 \<longleftrightarrow>
            indices = [] \<or> allSameClass dt indices" by simp
  next
    case False
    then have "indices \<noteq> []" by (auto simp: allSameClass_def)
    with False calculateEntropy_mixed[OF False] show "calculateEntropy dt indices = 0 \<longleftrightarrow>
            indices = [] \<or> allSameClass dt indices" by simp
  qed
qed

theorem calculateEntropy_sign_witness:
  "valid_dataset weather \<and> valid_subset weather [0, 2] \<and>
   0 \<le> calculateEntropy weather [0, 2] \<and> calculateEntropy weather [] = 0 \<and>
   calculateEntropy weather [0, 2] = 0"
proof -
  have v: "valid_subset weather [0, 2]"
    by (simp add: valid_subset_def weather_def)
  have t: "targetColumn weather = ''Play''" by (simp add: weather_def)
  have same: "\<forall>i\<in>set [0, 2]. \<forall>j\<in>set [0, 2].
       cell weather i (getColumnIndex weather (targetColumn weather))
         = cell weather j (getColumnIndex weather (targetColumn weather))"
    by (simp add: t weather_cells)
  from calculateEntropy_sign[OF weather_valid(1) v] same v weather_valid(1)
  show ?thesis by blast
qed

subsection \<open>A loop that keeps the first strict maximum\<close>

text \<open>Both \<^verbatim>\<open>findBestFeature\<close> and \<^verbatim>\<open>getMostCommonClass\<close> scan a sequence and replace
  the best element only by a strictly better one. Either nothing exceeds the start value,
  or the result is the first element of maximal weight.\<close>

lemma fold_first_max:
  fixes w :: "'a \<Rightarrow> 'w::linorder"
  shows "(fold (\<lambda>x (b, m). if w x > m then (nm x, w x) else (b, m)) xs (b0, m0) = (b0, m0)
           \<and> (\<forall>x\<in>set xs. w x \<le> m0))
       \<or> (\<exists>k<length xs.
             fold (\<lambda>x (b, m). if w x > m then (nm x, w x) else (b, m)) xs (b0, m0)
               = (nm (xs ! k), w (xs ! k))
             \<and> m0 < w (xs ! k)
             \<and> (\<forall>j<k. w (xs ! j) < w (xs ! k))
             \<and> (\<forall>x\<in>set xs. w x \<le> w (xs ! k)))"
proof (induction xs rule: rev_induct)
  case Nil
  then show ?case by simp
next
  case (snoc x xs)
  let ?step = "\<lambda>x (b, m). if w x > m then (nm x, w x) else (b, m)"
  from snoc.IH show ?case
  proof (elim disjE conjE exE)
    assume same: "fold ?step xs (b0, m0) = (b0, m0)" and le: "\<forall>x\<in>set xs. w x \<le> m0"
    show ?thesis
    proof (cases "w x > m0")
      case True
      have "\<forall>j<length xs. w (xs ! j) < w x" using le True by (auto simp: all_set_conv_all_nth)
      moreover have "\<forall>y\<in>set (xs @ [x]). w y \<le> w x" using le True by auto
      ultimately have "length xs < length (xs @ [x]) \<and>
             fold ?step (xs @ [x]) (b0, m0) = (nm ((xs @ [x]) ! length xs), w ((xs @ [x]) ! length xs))
             \<and> m0 < w ((xs @ [x]) ! length xs)
             \<and> (\<forall>j<length xs. w ((xs @ [x]) ! j) < w ((xs @ [x]) ! length xs))
             \<and> (\<forall>y\<in>set (xs @ [x]). w y \<le> w ((xs @ [x]) ! length xs))"
        using same True by (simp add: nth_append)
      then show ?thesis by blast
    next
      case False
      then show ?thesis using same le by auto
    qed
  next
    fix k
    assume k: "k < length xs"
      and best: "fold ?step xs (b0, m0) = (nm (xs ! k), w (xs ! k))"
      and gt: "m0 < w (xs ! k)"
      and first: "\<forall>j<k. w (xs ! j) < w (xs ! k)"
      and mx: "\<forall>x\<in>set xs. w x \<le> w (xs ! k)"
    show ?thesis
    proof (cases "w x > w (xs ! k)")
      case True
      have "\<forall>j<length xs. w (xs ! j) < w x" using mx True by (auto simp: all_set_conv_all_nth)
      moreover have "\<forall>y\<in>set (xs @ [x]). w y \<le> w x" using mx True by auto
      moreover have "m0 < w x" using gt True by simp
      ultimately have "length xs < length (xs @ [x]) \<and>
             fold ?step (xs @ [x]) (b0, m0) = (nm ((xs @ [x]) ! length xs), w ((xs @ [x]) ! length xs))
             \<and> m0 < w ((xs @ [x]) ! length xs)
             \<and> (\<forall>j<length xs. w ((xs @ [x]) ! j) < w ((xs @ [x]) ! length xs))
             \<and> (\<forall>y\<in>set (xs @ [x]). w y \<le> w ((xs @ [x]) ! length xs))"
        using best True by (simp add: nth_append)
      then show ?thesis by blast
    next
      case False
      have "k < length (xs @ [x]) \<and>
             fold ?step (xs @ [x]) (b0, m0) = (nm ((xs @ [x]) ! k), w ((xs @ [x]) ! k))
             \<and> m0 < w ((xs @ [x]) ! k)
             \<and> (\<forall>j<k. w ((xs @ [x]) ! j) < w ((xs @ [x]) ! k))
             \<and> (\<forall>y\<in>set (xs @ [x]). w y \<le> w ((xs @ [x]) ! k))"
        using k best gt first mx False by (auto simp: nth_append)
      then show ?thesis by blast
    qed
  qed
qed

subsection \<open>The best feature\<close>

text \<open>The columns that \<^verbatim>\<open>findBestFeature\<close> considers: the headers, in their order, that
  are neither the target column nor in \<open>usedFeatures\<close>.\<close>

definition eligibleFeatures :: "DecisionTree \<Rightarrow> string set \<Rightarrow> string list" where
  "eligibleFeatures dt usedFeatures =
     filter (\<lambda>h. h \<noteq> targetColumn dt \<and> h \<notin> usedFeatures) (headers dt)"

lemma fold_skip_ineligible:
  "fold (\<lambda>feat (bestFeature, bestGain).
           if P feat
           then (let gain = G feat
                 in if gain > bestGain then (feat, gain) else (bestFeature, bestGain))
           else (bestFeature, bestGain)) hs acc
   = fold (\<lambda>x (b, m). if G x > m then (x, G x) else (b, m)) (filter P hs) acc"
  by (induction hs arbitrary: acc) (auto simp: Let_def split: prod.splits)

lemma findBestFeature_fold:
  "findBestFeature dt indices used =
     fst (fold (\<lambda>x (b, m). if calculateInformationGain dt indices x > m
                             then (x, calculateInformationGain dt indices x) else (b, m))
               (eligibleFeatures dt used) ([], - 1))"
  unfolding findBestFeature_def eligibleFeatures_def
  by (simp only: fold_skip_ineligible[where P = "\<lambda>h. h \<noteq> targetColumn dt \<and> h \<notin> used"])

lemma findBestFeature_none:
  "eligibleFeatures dt used = [] \<Longrightarrow> findBestFeature dt indices used = []"
  by (simp add: findBestFeature_fold)

lemma findBestFeature_first_max:
  assumes "eligibleFeatures dt used \<noteq> []"
  shows "\<exists>k<length (eligibleFeatures dt used).
           findBestFeature dt indices used = eligibleFeatures dt used ! k
           \<and> (\<forall>j<k. calculateInformationGain dt indices (eligibleFeatures dt used ! j)
                      < calculateInformationGain dt indices (eligibleFeatures dt used ! k))
           \<and> (\<forall>h\<in>set (eligibleFeatures dt used).
                 calculateInformationGain dt indices h
                   \<le> calculateInformationGain dt indices (eligibleFeatures dt used ! k))"
proof -
  let ?E = "eligibleFeatures dt used"
  let ?G = "calculateInformationGain dt indices"
  let ?r = "fold (\<lambda>x (b, m). if ?G x > m then (x, ?G x) else (b, m)) ?E ([], - 1)"
  from fold_first_max[of ?G "\<lambda>x. x" ?E "[]" "- 1"]
  consider "\<forall>x\<in>set ?E. ?G x \<le> - 1"
    | k where "k < length ?E" "?r = (?E ! k, ?G (?E ! k))"
        "\<forall>j<k. ?G (?E ! j) < ?G (?E ! k)" "\<forall>x\<in>set ?E. ?G x \<le> ?G (?E ! k)"
    by blast
  then show ?thesis
  proof cases
    case 1
    from assms obtain h where "h \<in> set ?E" by (cases ?E) auto
    with 1 have "?G h \<le> - 1" by blast
    with calculateInformationGain_nonneg[of dt indices h] show ?thesis by simp
  next
    case 2
    from 2(2) have "findBestFeature dt indices used = ?E ! k"
      by (simp add: findBestFeature_fold)
    with 2(1,3,4) show ?thesis by blast
  qed
qed

lemma findBestFeature_some:
  assumes "eligibleFeatures dt used \<noteq> []" "[] \<notin> set (eligibleFeatures dt used)"
  shows "findBestFeature dt indices used \<noteq> []"
proof -
  from findBestFeature_first_max[OF assms(1), of indices] obtain k
    where "k < length (eligibleFeatures dt used)"
      "findBestFeature dt indices used = eligibleFeatures dt used ! k" by blast
  then have "findBestFeature dt indices used \<in> set (eligibleFeatures dt used)" by simp
  with assms(2) show ?thesis by metis
qed

text \<open>A dataset whose first column has the empty string as its name, as the header line
  \<^verbatim>\<open>,t\<close> gives it.\<close>

definition unnamed :: DecisionTree where
  "unnamed = \<lparr>data = [[''x'', ''a''], [''y'', ''b'']],
              headers = ['''', ''t''], targetColumn = ''t'', root = None\<rparr>"

lemma weather_eligible: "eligibleFeatures weather {} = [''Outlook'']"
  by (simp add: eligibleFeatures_def weather_def)

lemma weather_best: "findBestFeature weather [0, 1, 2] {} = ''Outlook''"
  using findBestFeature_first_max[of weather "{}" "[0, 1, 2]"] by (simp add: weather_eligible)

subsection \<open>The most common class\<close>

lemma getMostCommonClass_first_max:
  fixes dt :: DecisionTree and indices :: "nat list"
  assumes "indices \<noteq> []"
  defines "cls \<equiv> \<lambda>i. cell dt i (getColumnIndex dt (targetColumn dt))"
  defines "cnt \<equiv> \<lambda>v. length (filter (\<lambda>i. cls i = v) indices)"
  shows "getMostCommonClass dt indices \<in> cls ` set indices
       \<and> (\<forall>v. cnt v \<le> cnt (getMostCommonClass dt indices))
       \<and> (\<forall>v. cnt v = cnt (getMostCommonClass dt indices) \<longrightarrow> getMostCommonClass dt indices \<le> v)"
proof -
  let ?vs = "sorted_list_of_set (cls ` set indices)"
  let ?counts = "map (\<lambda>v. (v, cnt v)) ?vs"
  let ?step = "\<lambda>pair (mostCommon, maxCount).
                 if snd pair > maxCount then (fst pair, snd pair) else (mostCommon, maxCount)"
  have counts: "countValues dt indices (getColumnIndex dt (targetColumn dt)) = ?counts"
    by (simp add: countValues_eq cls_def cnt_def)
  have res: "getMostCommonClass dt indices = fst (fold ?step ?counts ([], 0))"
    unfolding getMostCommonClass_def counts Let_def ..
  have set_vs: "set ?vs = cls ` set indices" by simp
  have pos: "0 < cnt v" if "v \<in> cls ` set indices" for v
    using that by (simp only: cnt_def filter_pos_iff)
  have zero: "cnt v = 0" if "v \<notin> cls ` set indices" for v
    using that filter_pos_iff[of cls v indices] by (simp add: cnt_def)
  from assms(1) obtain v0 where v0: "v0 \<in> cls ` set indices" by (cases indices) auto
  from fold_first_max[of snd fst ?counts "[]" 0]
  consider "\<forall>x\<in>set ?counts. snd x \<le> 0"
    | k where "k < length ?counts" "fold ?step ?counts ([], 0) = (fst (?counts ! k), snd (?counts ! k))"
        "\<forall>j<k. snd (?counts ! j) < snd (?counts ! k)" "\<forall>x\<in>set ?counts. snd x \<le> snd (?counts ! k)"
    by blast
  then show ?thesis
  proof cases
    case 1
    have "(v0, cnt v0) \<in> set ?counts" using v0 by simp
    with 1 have "cnt v0 \<le> 0" by fastforce
    with pos[OF v0] show ?thesis by simp
  next
    case 2
    from 2(1) have k: "k < length ?vs" by simp
    let ?m = "?vs ! k"
    from 2(2) k have m: "getMostCommonClass dt indices = ?m" by (simp add: res)
    have mem: "?m \<in> cls ` set indices" using k nth_mem[OF k] by (simp only: set_vs)
    have first: "cnt (?vs ! j) < cnt ?m" if "j < k" for j
      using 2(3) that k by simp
    have mx: "cnt v \<le> cnt ?m" for v
    proof (cases "v \<in> cls ` set indices")
      case True
      then have "(v, cnt v) \<in> set ?counts" by simp
      with 2(4) have "snd (v, cnt v) \<le> snd (?counts ! k)" by blast
      then show ?thesis using k by simp
    next
      case False
      then show ?thesis by (simp add: zero)
    qed
    have tie: "?m \<le> v" if "cnt v = cnt ?m" for v
    proof -
      have "v \<in> cls ` set indices"
        using that pos[OF mem] zero[of v] by (cases "v \<in> cls ` set indices") simp_all
      then have "v \<in> set ?vs" by simp
      then obtain j where j: "j < length ?vs" "?vs ! j = v"
        unfolding in_set_conv_nth by blast
      have "\<not> j < k" using first[of j] that j(2) by auto
      then have "k \<le> j" by simp
      moreover have "sorted ?vs" by simp
      ultimately show ?thesis using j by (auto simp: sorted_iff_nth_mono)
    qed
    from mem mx tie show ?thesis unfolding m by blast
  qed
qed

text \<open>Following the spec's words: the distinct values of a sequence in the order in which
  each is first encountered, and the majority class with ties broken in favour of the
  class first encountered in index order.\<close>

fun first_encountered :: "string list \<Rightarrow> string list" where
  "first_encountered [] = []"
| "first_encountered (x # xs) = x # first_encountered (filter (\<lambda>y. y \<noteq> x) xs)"

definition spec_majority_first_encountered :: "DecisionTree \<Rightarrow> nat list \<Rightarrow> string" where
  "spec_majority_first_encountered dt indices =
     (let classes = map (\<lambda>idx. cell dt idx (getColumnIndex dt (targetColumn dt))) indices
      in fst (fold (\<lambda>c (best, n). if count_list classes c > n then (c, count_list classes c)
                                     else (best, n))
                   (first_encountered classes) ('''', 0)))"

text \<open>Two rows of different classes and no feature column.\<close>

definition ties :: DecisionTree where
  "ties = \<lparr>data = [[''b''], [''a'']], headers = [''t''], targetColumn = ''t'', root = None\<rparr>"

text \<open>Three rows, two of the class \<open>b\<close>, and no feature column.\<close>

definition votes :: DecisionTree where
  "votes = \<lparr>data = [[''b''], [''a''], [''b'']], headers = [''t''], targetColumn = ''t'',
            root = None\<rparr>"

lemma ties_cells:
  "getColumnIndex ties ''t'' = 0" "targetColumn ties = ''t''"
  "cell ties 0 0 = ''b''" "cell ties (Suc 0) 0 = ''a''"
  by (simp_all add: getColumnIndex_def cell_def ties_def)

lemma votes_cells:
  "getColumnIndex votes ''t'' = 0" "targetColumn votes = ''t''"
  "cell votes 0 0 = ''b''" "cell votes (Suc 0) 0 = ''a''" "cell votes 2 0 = ''b''"
  by (simp_all add: getColumnIndex_def cell_def votes_def)

text \<open>C3 (as stated, refuted): the rows \<open>b\<close>, \<open>a\<close> tie; the class first encountered is
  \<open>b\<close>, and the leaf that \<open>buildTree\<close> returns predicts \<open>a\<close>.\<close>

theorem majority_tie_counterexample:
  "valid_dataset ties \<and> valid_subset ties [0, 1] \<and> \<not> allSameClass ties [0, 1] \<and>
   eligibleFeatures ties {} = [] \<and>
   spec_majority_first_encountered ties [0, 1] = ''b'' \<and>
   buildTree ties [0, 1] {} = leaf_node ''a''"
proof -
  have v: "valid_dataset ties" "valid_subset ties [0, 1]"
    by (simp_all add: valid_dataset_def valid_subset_def ties_def)
  have np: "\<not> allSameClass ties [0, 1]"
    by (simp add: allSameClass_def ties_cells)
  have e: "eligibleFeatures ties {} = []"
    by (simp add: eligibleFeatures_def ties_def)
  have s: "spec_majority_first_encountered ties [0, 1] = ''b''"
    by (simp add: spec_majority_first_encountered_def ties_cells)
  have m: "getMostCommonClass ties [0, 1] = ''a''"
    by (simp add: getMostCommonClass_def countValues_def ties_cells)
  have "buildTree ties [0, 1] {} = leaf_node (getMostCommonClass ties [0, 1])"
    by (rule buildTree_majority[OF _ np findBestFeature_none[OF e]]) simp
  then have "buildTree ties [0, 1] {} = leaf_node ''a''" by (simp only: m)
  with v np e s show ?thesis by (intro conjI)
qed

text \<open>C3 (amended): for a non-empty subset that is not pure and has no eligible feature,
  \<open>buildTree\<close> returns a leaf whose label is a target value of the subset with the
  greatest number of rows; among the classes with that number it is the least one in the
  byte-wise lexicographic order of \<^verbatim>\<open>std::string\<close>, the order in which the
  \<^verbatim>\<open>std::map\<close> of counts is scanned.\<close>

theorem buildTree_majority_leaf:
  assumes "valid_dataset dt" and "valid_subset dt indices"
    and "indices \<noteq> []" and "\<not> allSameClass dt indices" and "eligibleFeatures dt used = []"
  shows "buildTree dt indices used = leaf_node (getMostCommonClass dt indices) \<and>
         getMostCommonClass dt indices
           \<in> (\<lambda>i. cell dt i (getColumnIndex dt (targetColumn dt))) ` set indices \<and>
         (\<forall>v. length (filter (\<lambda>i. cell dt i (getColumnIndex dt (targetColumn dt)) = v) indices)
                \<le> length (filter (\<lambda>i. cell dt i (getColumnIndex dt (targetColumn dt))
                                          = getMostCommonClass dt indices) indices)) \<and>
         (\<forall>v. length (filter (\<lambda>i. cell dt i (getColumnIndex dt (targetColumn dt)) = v) indices)
                = length (filter (\<lambda>i. cell dt i (getColumnIndex dt (targetColumn dt))
                                          = getMostCommonClass dt indices) indices)
              \<longrightarrow> getMostCommonClass dt indices \<le> v)"
  using buildTree_majority[OF assms(3,4) findBestFeature_none[OF assms(5)]]
    getMostCommonClass_first_max[OF assms(3), of dt]
  by simp

theorem buildTree_majority_leaf_witness:
  "valid_dataset votes \<and> valid_subset votes [0, 1, 2] \<and> [0, 1, 2] \<noteq> ([] :: nat list) \<and>
   \<not> allSameClass votes [0, 1, 2] \<and> eligibleFeatures votes {} = [] \<and>
   buildTree votes [0, 1, 2] {} = leaf_node (getMostCommonClass votes [0, 1, 2]) \<and>
   getMostCommonClass votes [0, 1, 2] = ''b''"
proof -
  have v: "valid_dataset votes" "valid_subset votes [0, 1, 2]"
    by (simp_all add: valid_dataset_def valid_subset_def votes_def)
  have ne: "[0, 1, 2] \<noteq> ([] :: nat list)" by simp
  have np: "\<not> allSameClass votes [0, 1, 2]"
    by (simp add: allSameClass_def votes_cells)
  have e: "eligibleFeatures votes {} = []"
    by (simp add: eligibleFeatures_def votes_def)
  note t = buildTree_majority_leaf[OF v ne np e]
  have "getMostCommonClass votes [0, 1, 2] \<in> {''a'', ''b''}"
    using t by (auto simp: votes_cells)
  moreover have "getMostCommonClass votes [0, 1, 2] \<noteq> ''a''"
  proof
    assume a: "getMostCommonClass votes [0, 1, 2] = ''a''"
    from t have "length (filter (\<lambda>i. cell votes i (getColumnIndex votes (targetColumn votes)) = ''b'') [0, 1, 2])
                \<le> length (filter (\<lambda>i. cell votes i (getColumnIndex votes (targetColumn votes))
                                          = getMostCommonClass votes [0, 1, 2]) [0, 1, 2])"
      by blast
    then show False unfolding a by (simp add: votes_cells)
  qed
  ultimately have "getMostCommonClass votes [0, 1, 2] = ''b''" by simp
  with t v ne np e show ?thesis by (intro conjI) blast+
qed

subsection \<open>The tree of the small dataset\<close>

lemma weather_cells_Suc:
  "cell weather (Suc 0) 1 = ''Yes''" "cell weather (Suc 0) 0 = ''Rain''"
  "targetColumn weather = ''Play''"
  by (simp_all add: cell_def weather_def)

lemma sorted_values_sort:
  "sorted_list_of_set (f ` set xs) = sort (remdups (map f xs))"
  using sorted_list_of_set_sort_remdups[of "map f xs"] by simp

lemma weather_not_pure: "\<not> allSameClass weather [0, 1, 2]"
  by (simp add: allSameClass_def weather_cells weather_cells_Suc)

lemma weather_tree:
  "buildTree weather [0, 1, 2] {} =
     TreeNode ''Outlook'' '''' '''' False
       [TreeNode '''' ''Rain'' ''Yes'' True [], TreeNode '''' ''Sunny'' ''No'' True []]"
proof -
  have vals: "sorted_list_of_set ((\<lambda>i. cell weather i (getColumnIndex weather ''Outlook'')) ` set [0, 1, 2])
      = [''Rain'', ''Sunny'']"
    by (subst sorted_values_sort) (simp add: weather_cells weather_cells_Suc)
  have rain: "filter (\<lambda>i. cell weather i (getColumnIndex weather ''Outlook'') = ''Rain'') [0, 1, 2] = [1]"
    by (simp add: weather_cells weather_cells_Suc)
  have sunny: "filter (\<lambda>i. cell weather i (getColumnIndex weather ''Outlook'') = ''Sunny'') [0, 1, 2] = [0, 2]"
    by (simp add: weather_cells weather_cells_Suc)
  have l1: "buildTree weather [1] {''Outlook''} = leaf_node ''Yes''"
    by (subst buildTree_pure) (simp_all add: allSameClass_def weather_cells weather_cells_Suc)
  have l2: "buildTree weather [0, 2] {''Outlook''} = leaf_node ''No''"
    by (subst buildTree_pure) (simp_all add: allSameClass_def weather_cells weather_cells_Suc)
  have "buildTree weather [0, 1, 2] {} =
     TreeNode ''Outlook'' [] [] False
       (map (\<lambda>v. set_value v
               (buildTree weather (filter (\<lambda>i. cell weather i (getColumnIndex weather ''Outlook'') = v) [0, 1, 2])
                  (insert ''Outlook'' {})))
            (sorted_list_of_set ((\<lambda>i. cell weather i (getColumnIndex weather ''Outlook'')) ` set [0, 1, 2])))"
    by (rule buildTree_decision[OF _ weather_not_pure weather_best]) simp_all
  then show ?thesis
    unfolding vals by (simp only: list.map rain sunny l1 l2) (simp add: set_value_def leaf_node_def)
qed

subsection \<open>Children of a decision node\<close>






subsection \<open>Prediction at a decision node\<close>

lemma predict_children_none:
  "\<forall>c\<in>set cs. value' c \<noteq> fv \<Longrightarrow> predict_children cs fv inst = ''Unknown''"
  by (induction cs) auto

lemma predict_children_unique:
  "distinct (map value' cs) \<Longrightarrow> c \<in> set cs \<Longrightarrow> value' c = fv \<Longrightarrow>
   predict_children cs fv inst = predict c inst"
  by (induction cs) auto

lemma distinct_value_unique:
  "distinct (map value' cs) \<Longrightarrow> c \<in> set cs \<Longrightarrow> c' \<in> set cs \<Longrightarrow> value' c' = value' c \<Longrightarrow>
   c' = c"
  by (simp add: distinct_map inj_on_def)

lemma weather_root_node:
  "buildTree weather [0, 1, 2] {} \<in> set (nodes (buildTree weather [0, 1, 2] {}))"
  by (subst nodes_unfold) simp

text \<open>C1 (as stated, refuted): at the decision node at the root of a built tree, an
  instance without the node's feature and an instance with an unseen value of it are
  both answered with \<open>Unknown\<close>, which is not the label \<open>unknown\<close>.\<close>

theorem predict_unknown_label_counterexample:
  "valid_dataset weather \<and> valid_subset weather [0, 1, 2] \<and>
   \<not> isLeaf (buildTree weather [0, 1, 2] {}) \<and>
   predict (buildTree weather [0, 1, 2] {}) Map.empty = ''Unknown'' \<and>
   predict (buildTree weather [0, 1, 2] {}) [''Outlook'' \<mapsto> ''Overcast''] = ''Unknown'' \<and>
   ''Unknown'' \<noteq> ''unknown''"
  unfolding weather_tree using weather_valid by simp

text \<open>C1 (amended): at a decision node of a built tree, \<open>predict\<close> returns the exact
  label \<open>Unknown\<close> (capital U) when the instance lacks the node's feature, and the same
  label when the instance's value (compared by exact, case-sensitive string equality)
  is the edge value of no child; otherwise it returns what \<open>predict\<close> returns on the
  matching child, which is the only child with that edge value.\<close>

theorem predict_decision_node:
  assumes "valid_dataset dt" and "valid_subset dt indices"
    and "n \<in> set (nodes (buildTree dt indices used))" and "\<not> isLeaf n"
  shows "(inst (feature n) = None \<longrightarrow> predict n inst = ''Unknown'') \<and>
         (\<forall>fv. inst (feature n) = Some fv \<and> (\<forall>c\<in>set (children n). value' c \<noteq> fv)
               \<longrightarrow> predict n inst = ''Unknown'') \<and>
         (\<forall>fv c. inst (feature n) = Some fv \<and> c \<in> set (children n) \<and> value' c = fv
               \<longrightarrow> predict n inst = predict c inst
                   \<and> (\<forall>c'\<in>set (children n). value' c' = fv \<longrightarrow> c' = c))"
proof -
  have pu: "predict n inst =
      (case inst (feature n) of None \<Rightarrow> ''Unknown''
       | Some fv \<Rightarrow> predict_children (children n) fv inst)"
    using assms(4) by (subst predict_unfold) simp
  have d: "distinct (map value' (children n))"
    by (rule buildTree_children_distinct[OF assms(3)])
  have p1: "predict n inst = ''Unknown''" if "inst (feature n) = None"
    unfolding pu using that by simp
  have p2: "predict n inst = ''Unknown''"
    if "inst (feature n) = Some fv" "\<forall>c\<in>set (children n). value' c \<noteq> fv" for fv
    unfolding pu using that(1) predict_children_none[OF that(2), of inst] by simp
  have p3: "predict n inst = predict c inst"
    if "inst (feature n) = Some fv" "c \<in> set (children n)" "value' c = fv" for fv c
    unfolding pu using that(1) predict_children_unique[OF d that(2,3), of inst] by simp
  have p4: "c' = c"
    if "c \<in> set (children n)" "value' c = fv" "c' \<in> set (children n)" "value' c' = fv"
    for fv c c'
    by (rule distinct_value_unique[OF d that(1,3)]) (simp add: that(2,4))
  show ?thesis
  proof (intro conjI allI impI ballI)
    show "predict n inst = ''Unknown''" if "inst (feature n) = None"
      by (rule p1[OF that])
    show "predict n inst = ''Unknown''"
      if "inst (feature n) = Some fv \<and> (\<forall>c\<in>set (children n). value' c \<noteq> fv)" for fv
      using that p2[of fv] by simp
    show "predict n inst = predict c inst"
      if "inst (feature n) = Some fv \<and> c \<in> set (children n) \<and> value' c = fv" for fv c
      using that p3[of fv c] by simp
    show "c' = c"
      if "inst (feature n) = Some fv \<and> c \<in> set (children n) \<and> value' c = fv"
        "c' \<in> set (children n)" "value' c' = fv" for fv c c'
      using that p4[of c fv c'] by simp
  qed
qed

theorem predict_decision_node_witness:
  "valid_dataset weather \<and> valid_subset weather [0, 1, 2] \<and>
   buildTree weather [0, 1, 2] {} \<in> set (nodes (buildTree weather [0, 1, 2] {})) \<and>
   \<not> isLeaf (buildTree weather [0, 1, 2] {}) \<and>
   predict (buildTree weather [0, 1, 2] {}) Map.empty = ''Unknown'' \<and>
   predict (buildTree weather [0, 1, 2] {}) [''Outlook'' \<mapsto> ''Rain''] = ''Yes''"
proof -
  let ?t = "buildTree weather [0, 1, 2] {}"
  have nl: "\<not> isLeaf ?t" unfolding weather_tree by simp
  have f: "feature ?t = ''Outlook''" unfolding weather_tree by simp
  have c: "TreeNode '''' ''Rain'' ''Yes'' True [] \<in> set (children ?t)"
    unfolding weather_tree by simp
  note t = predict_decision_node[OF weather_valid weather_root_node nl]
  have p1: "predict ?t Map.empty = ''Unknown''"
    using t[of Map.empty] by simp
  have p2: "predict ?t [''Outlook'' \<mapsto> ''Rain''] = ''Yes''"
  proof -
    let ?I = "[''Outlook'' \<mapsto> ''Rain'']"
    let ?C = "TreeNode '''' ''Rain'' ''Yes'' True []"
    have i: "?I (feature ?t) = Some ''Rain''" unfolding f by simp
    have v: "value' ?C = ''Rain''" by simp
    from t[of ?I] i c v have "predict ?t ?I = predict ?C ?I" by blast
    then show ?thesis by simp
  qed
  from weather_valid weather_root_node nl p1 p2 show ?thesis by (intro conjI)
qed

text \<open>The tree of the small dataset has two paths, each with the one feature, and its
  children are built with the set that holds that feature.\<close>

theorem buildTree_no_feature_twice_witness:
  "valid_dataset weather \<and> valid_subset weather [0, 1, 2] \<and>
   path_features (buildTree weather [0, 1, 2] {}) = [[''Outlook''], [''Outlook'']] \<and>
   list_all distinct (path_features (buildTree weather [0, 1, 2] {})) \<and>
   \<not> isLeaf (buildTree weather [0, 1, 2] {}) \<and>
   children (buildTree weather [0, 1, 2] {}) =
     map (\<lambda>group. set_value (fst group)
            (buildTree weather (snd group) (insert (feature (buildTree weather [0, 1, 2] {})) {})))
         (groupByValue weather [0, 1, 2]
            (getColumnIndex weather (feature (buildTree weather [0, 1, 2] {}))))"
proof -
  let ?t = "buildTree weather [0, 1, 2] {}"
  note t = buildTree_no_feature_twice[OF weather_valid, of "{}"]
  have nl: "\<not> isLeaf ?t" unfolding weather_tree by simp
  have p: "path_features ?t = [[''Outlook''], [''Outlook'']]" unfolding weather_tree by simp
  from t have d: "list_all distinct (path_features ?t)" by (simp add: list_all_iff)
  from t nl have c: "children ?t =
     map (\<lambda>group. set_value (fst group)
            (buildTree weather (snd group) (insert (feature ?t) {})))
         (groupByValue weather [0, 1, 2] (getColumnIndex weather (feature ?t)))"
    by blast
  from weather_valid p d nl c show ?thesis by (intro conjI)
qed

subsection \<open>Round trip on a dataset with a determining feature\<close>

lemma find_distance_mem:
  "x \<in> set hs \<Longrightarrow> find_distance hs x < length hs \<and> hs ! find_distance hs x = x"
  by (induction hs) auto

lemma getColumnIndex_mem:
  "h \<in> set (headers dt) \<Longrightarrow> getColumnIndex dt h = int (find_distance (headers dt) h)"
  using find_distance_mem[of h "headers dt"] by (simp add: getColumnIndex_def Let_def)

lemma cell_header:
  "h \<in> set (headers dt) \<Longrightarrow>
   cell dt i (getColumnIndex dt h) = data dt ! i ! find_distance (headers dt) h"
  by (simp add: getColumnIndex_mem cell_def)

lemma eligibleFeatures_subset:
  "set (eligibleFeatures dt used) \<subseteq> set (eligibleFeatures dt {})"
  by (auto simp: eligibleFeatures_def)

lemma predict_buildTree_row:
  fixes dt :: DecisionTree and inst :: "string \<rightharpoonup> string"
  defines "cls \<equiv> \<lambda>i. cell dt i (getColumnIndex dt (targetColumn dt))"
  defines "ft \<equiv> \<lambda>h i. cell dt i (getColumnIndex dt h)"
  assumes noempty: "[] \<notin> set (eligibleFeatures dt {})"
    and F: "F \<in> set (headers dt)" "F \<noteq> targetColumn dt"
    and inst: "\<forall>h\<in>set (headers dt). h \<noteq> targetColumn dt \<longrightarrow> inst h = Some (ft h r)"
  shows "(\<forall>i\<in>set indices. \<forall>j\<in>set indices. ft F i = ft F j \<longrightarrow> cls i = cls j) \<Longrightarrow>
         (F \<in> used \<longrightarrow> (\<forall>i\<in>set indices. \<forall>j\<in>set indices. ft F i = ft F j)) \<Longrightarrow>
         r \<in> set indices \<Longrightarrow>
         predict (buildTree dt indices used) inst = cls r"
proof (induction indices used rule: buildTree_induct'[where dt = dt])
  case (Empty used)
  then show ?case by simp
next
  case (Pure indices used)
  from Pure.hyps(1) have "indices ! 0 \<in> set indices" by (cases indices) auto
  with Pure.hyps(2) Pure.prems(3) have "cls (indices ! 0) = cls r"
    unfolding allSameClass_iff cls_def by blast
  then show ?case by (simp add: leaf_node_def cls_def)
next
  case (Majority indices used)
  have "F \<notin> used"
  proof
    assume "F \<in> used"
    with Majority.prems(1,2) have "\<forall>i\<in>set indices. \<forall>j\<in>set indices. cls i = cls j" by blast
    then have "allSameClass dt indices" unfolding allSameClass_iff cls_def .
    with Majority.hyps(2) show False by simp
  qed
  with F have "F \<in> set (eligibleFeatures dt used)" by (simp add: eligibleFeatures_def)
  then have ne: "eligibleFeatures dt used \<noteq> []" by auto
  have "[] \<notin> set (eligibleFeatures dt used)"
    using noempty eligibleFeatures_subset[of dt used] by blast
  from findBestFeature_some[OF ne this, of indices] Majority.hyps(3) show ?case by simp
next
  case (Decision indices used f col vs sub)
  let ?child = "\<lambda>v. set_value v (buildTree dt (sub v) (insert f used))"
  from findBestFeature_eligible[of dt indices used] Decision.hyps(3,4)
  have f: "f \<in> set (headers dt)" "f \<noteq> targetColumn dt" by auto
  let ?v = "ft f r"
  have iv: "inst f = Some ?v" using inst f by blast
  have fcol: "ft f i = cell dt i col" for i by (simp add: ft_def Decision.hyps(5))
  have vmem: "?v \<in> set vs"
    using Decision.prems(3) by (simp add: Decision.hyps(6) fcol)
  have dist: "distinct (map value' (map ?child vs))"
    by (simp add: comp_def Decision.hyps(6))
  have cmem: "?child ?v \<in> set (map ?child vs)" using vmem by simp
  have "predict (TreeNode f [] [] False (map ?child vs)) inst
      = predict_children (map ?child vs) ?v inst"
    using iv by simp
  also have "\<dots> = predict (?child ?v) inst"
    by (rule predict_children_unique[OF dist cmem]) simp
  also have "\<dots> = predict (buildTree dt (sub ?v) (insert f used)) inst" by simp
  also have "\<dots> = cls r"
  proof (rule Decision.IH[OF vmem])
    have sub_set: "set (sub ?v) = {i \<in> set indices. ft f i = ?v}"
      by (auto simp: Decision.hyps(7) fcol)
    show "\<forall>i\<in>set (sub ?v). \<forall>j\<in>set (sub ?v). ft F i = ft F j \<longrightarrow> cls i = cls j"
      using Decision.prems(1) unfolding sub_set by blast
    show "F \<in> insert f used \<longrightarrow> (\<forall>i\<in>set (sub ?v). \<forall>j\<in>set (sub ?v). ft F i = ft F j)"
    proof
      assume "F \<in> insert f used"
      then consider "F = f" | "F \<in> used" by blast
      then show "\<forall>i\<in>set (sub ?v). \<forall>j\<in>set (sub ?v). ft F i = ft F j"
      proof cases
        case 1
        then show ?thesis unfolding sub_set by simp
      next
        case 2
        with Decision.prems(2) show ?thesis unfolding sub_set by blast
      qed
    qed
    show "r \<in> set (sub ?v)" using Decision.prems(3) unfolding sub_set by simp
  qed
  finally show ?case .
qed

text \<open>Following the claim's words: a feature determines the target when rows that agree on
  the feature agree on the target, and an instance reproduces a row when it maps the
  name of every feature column to the row's value in that column.\<close>

definition determines :: "string list \<Rightarrow> string list list \<Rightarrow> string \<Rightarrow> string \<Rightarrow> bool" where
  "determines hdr rows feat target =
     list_all (\<lambda>r1. list_all (\<lambda>r2.
         r1 ! find_distance hdr feat = r2 ! find_distance hdr feat
           \<longrightarrow> r1 ! find_distance hdr target = r2 ! find_distance hdr target) rows) rows"

definition reproduces :: "string list \<Rightarrow> string \<Rightarrow> string list \<Rightarrow> (string \<rightharpoonup> string) \<Rightarrow> bool" where
  "reproduces hdr target row inst =
     list_all (\<lambda>k. hdr ! k \<noteq> target \<longrightarrow> inst (hdr ! k) = Some (row ! k)) [0..<length hdr]"

lemma train_loaded:
  assumes "rows \<noteq> []" "target \<in> set hdr"
  shows "train new_tree (Some (hdr # rows)) target =
     (True, \<lparr>data = rows, headers = hdr, targetColumn = target,
             root = Some (buildTree \<lparr>data = rows, headers = hdr, targetColumn = target, root = None\<rparr>
                            [0..<length rows] {})\<rparr>)"
proof -
  let ?dt = "\<lparr>data = rows, headers = hdr, targetColumn = target, root = None\<rparr>"
  have "getColumnIndex ?dt target \<noteq> - 1"
    using assms(2) getColumnIndex_mem[of target ?dt] by simp
  then show ?thesis
    using assms(1) by (simp add: train_def loadCSV_def new_tree_def Let_def)
qed

text \<open>Where no feature column is named by the empty string, training on a dataset with a
  determining feature gives a tree that predicts every training row's own target value
  for an instance that reproduces the row.\<close>

lemma train_round_trip_named:
  assumes "rows \<noteq> []" and "target \<in> set hdr"
    and "[] \<notin> set (filter (\<lambda>h. h \<noteq> target) hdr)"
    and "feat \<in> set hdr" and "feat \<noteq> target" and "determines hdr rows feat target"
    and "row \<in> set rows" and "reproduces hdr target row inst"
  shows "fst (train new_tree (Some (hdr # rows)) target) \<and>
         predictInstance (snd (train new_tree (Some (hdr # rows)) target)) inst
           = row ! find_distance hdr target"
proof -
  let ?dt = "\<lparr>data = rows, headers = hdr, targetColumn = target, root = None\<rparr>"
  let ?all = "[0..<length rows]"
  from assms(7) obtain r where r: "r < length rows" "rows ! r = row"
    by (auto simp: in_set_conv_nth)
  have cell_eq: "cell ?dt i (getColumnIndex ?dt h) = rows ! i ! find_distance hdr h"
    if "h \<in> set hdr" for h i
    using cell_header[of h ?dt i] that by simp
  have noempty: "[] \<notin> set (eligibleFeatures ?dt {})"
    using assms(3) by (simp add: eligibleFeatures_def)
  have det: "\<forall>i\<in>set ?all. \<forall>j\<in>set ?all.
        cell ?dt i (getColumnIndex ?dt feat) = cell ?dt j (getColumnIndex ?dt feat)
          \<longrightarrow> cell ?dt i (getColumnIndex ?dt (targetColumn ?dt))
              = cell ?dt j (getColumnIndex ?dt (targetColumn ?dt))"
  proof (intro ballI impI)
    fix i j assume ij: "i \<in> set ?all" "j \<in> set ?all"
      and eq: "cell ?dt i (getColumnIndex ?dt feat) = cell ?dt j (getColumnIndex ?dt feat)"
    from ij have mem: "rows ! i \<in> set rows" "rows ! j \<in> set rows" by simp_all
    from eq have "rows ! i ! find_distance hdr feat = rows ! j ! find_distance hdr feat"
      by (simp only: cell_eq[OF assms(4)])
    with assms(6) mem
    have "rows ! i ! find_distance hdr target = rows ! j ! find_distance hdr target"
      unfolding determines_def list_all_iff by blast
    then have "cell ?dt i (getColumnIndex ?dt target) = cell ?dt j (getColumnIndex ?dt target)"
      by (simp only: cell_eq[OF assms(2)])
    then show "cell ?dt i (getColumnIndex ?dt (targetColumn ?dt))
              = cell ?dt j (getColumnIndex ?dt (targetColumn ?dt))"
      by simp
  qed
  have inst: "\<forall>h\<in>set (headers ?dt). h \<noteq> targetColumn ?dt
        \<longrightarrow> inst h = Some (cell ?dt r (getColumnIndex ?dt h))"
  proof (intro ballI impI)
    fix h assume h: "h \<in> set (headers ?dt)" "h \<noteq> targetColumn ?dt"
    then have hm: "h \<in> set hdr" by simp
    from find_distance_mem[OF hm]
    have k: "find_distance hdr h < length hdr" "hdr ! find_distance hdr h = h" by simp_all
    from k(1) have "find_distance hdr h \<in> set [0..<length hdr]" by simp
    with assms(8) have "hdr ! find_distance hdr h \<noteq> target
        \<longrightarrow> inst (hdr ! find_distance hdr h) = Some (row ! find_distance hdr h)"
      unfolding reproduces_def list_all_iff by blast
    with k(2) h(2) have "inst h = Some (row ! find_distance hdr h)" by simp
    then show "inst h = Some (cell ?dt r (getColumnIndex ?dt h))"
      by (simp only: cell_eq[OF hm] r(2))
  qed
  have "predict (buildTree ?dt ?all {}) inst = cell ?dt r (getColumnIndex ?dt (targetColumn ?dt))"
    by (rule predict_buildTree_row[OF noempty _ _ inst det])
       (use assms(4,5) r(1) in simp_all)
  then have "predict (buildTree ?dt ?all {}) inst = row ! find_distance hdr target"
    by (simp add: cell_eq[OF assms(2)] r(2))
  then show ?thesis
    by (simp add: train_loaded[OF assms(1,2)] predictInstance_def)
qed

text \<open>The first column of \<open>unnamed\<close> is named by the empty string. It determines the
  target (the two rows differ on it), and the instance that maps the empty name to \<open>y\<close>
  reproduces the second row.\<close>

lemma unnamed_determines: "determines (headers unnamed) (data unnamed) '''' ''t''"
  by (simp add: determines_def unnamed_def)

lemma unnamed_reproduces:
  "reproduces (headers unnamed) ''t'' (data unnamed ! 1) ['''' \<mapsto> ''y'']"
  by (simp add: reproduces_def unnamed_def upt_rec)

section \<open>The arithmetic of \<^verbatim>\<open>double\<close>\<close>

text \<open>The definitions above evaluate the formulas of the source in exact arithmetic. The
  code computes in IEEE-754 binary64: every division, product, sum and difference is
  rounded, each on its own, to the nearest number with a 53-bit significand, ties going
  to the even significand. \<open>round_double\<close> is that rounding on the reals (with the quantum of the
  subnormal numbers at the lower end; a magnitude of \<open>2^1024\<close> or more would be an
  infinity and is not represented, the values of this program being quotients of row
  counts, their logarithms and sums of products of these). \<^verbatim>\<open>log2\<close> belongs to the C
  library, not to the repository; it is taken as the rounded logarithm, which is exact
  where the logarithm is a binary64 number (\<open>log2(0.5) = - 1\<close>, \<open>log2(1) = 0\<close>).\<close>

definition round_even :: "real \<Rightarrow> int" where
  "round_even y =
     (let f = \<lfloor>y\<rfloor>; d = y - of_int f
      in if d < 1 / 2 then f else if d > 1 / 2 then f + 1 else if even f then f else f + 1)"

definition binade :: "real \<Rightarrow> int" where
  "binade x = \<lfloor>log 2 \<bar>x\<bar>\<rfloor>"

definition round_double :: "real \<Rightarrow> real" where
  "round_double x =
     (if x = 0 then 0
      else let k = max (binade x - 52) (- 1074)
           in of_int (round_even (x / 2 powr of_int k)) * 2 powr of_int k)"

definition log2_double :: "real \<Rightarrow> real" where
  "log2_double x = round_double (log 2 x)"

lemma binade_eqI:
  assumes "2 powr of_int e \<le> \<bar>x\<bar>" "\<bar>x\<bar> < 2 powr of_int (e + 1)"
  shows "binade x = e"
proof -
  have pos: "0 < \<bar>x\<bar>" using assms(1) by (smt (verit) powr_gt_zero)
  have "of_int e \<le> log 2 \<bar>x\<bar>" using assms(1) pos by (simp add: le_log_iff)
  moreover have "log 2 \<bar>x\<bar> < of_int (e + 1)" using assms(2) pos by (simp add: log_less_iff)
  ultimately show ?thesis unfolding binade_def by (intro floor_unique) simp_all
qed

text \<open>Rounding a number of magnitude in \<open>[2^-j, 2^(1-j))\<close>.\<close>

lemma round_double_small:
  assumes "1 \<le> \<bar>x\<bar> * 2 ^ j" "\<bar>x\<bar> * 2 ^ j < 2" "j \<le> 1022"
  shows "round_double x = of_int (round_even (x * 2 ^ (52 + j))) / 2 ^ (52 + j)"
proof -
  have pw: "(2::real) powr (- real n) = 1 / 2 ^ n" for n
    by (simp add: powr_minus powr_realpow divide_simps)
  have "(2::real) powr (- real j + 1) = 2 powr (- real j) * 2 powr 1"
    by (rule powr_add)
  then have p1: "(2::real) powr (- real j + 1) = 2 / 2 ^ j"
    by (simp add: pw)
  have e0: "(2::real) powr of_int (- int j) = 1 / 2 ^ j"
  proof -
    have "real_of_int (- int j) = - real j" by simp
    then show ?thesis by (simp only: pw)
  qed
  have e1: "(2::real) powr of_int (- int j + 1) = 2 / 2 ^ j"
  proof -
    have "real_of_int (- int j + 1) = - real j + 1" by simp
    then show ?thesis by (simp only: p1)
  qed
  have "1 / 2 ^ j \<le> \<bar>x\<bar>" using assms(1) by (simp add: field_simps)
  then have lo: "2 powr of_int (- int j) \<le> \<bar>x\<bar>" by (simp only: e0)
  have "\<bar>x\<bar> < 2 / 2 ^ j" using assms(2) by (simp add: field_simps)
  then have hi: "\<bar>x\<bar> < 2 powr of_int (- int j + 1)" by (simp only: e1)
  have b: "binade x = - int j" by (rule binade_eqI[OF lo hi])
  have nz: "x \<noteq> 0" using assms(1) by auto
  have k: "max (- int j - 52) (- 1074) = - int (52 + j)" using assms(3) by simp
  have q: "(2::real) powr of_int (- int (52 + j)) = 1 / 2 ^ (52 + j)"
  proof -
    have "real_of_int (- int (52 + j)) = - real (52 + j)" by simp
    then show ?thesis by (simp only: pw)
  qed
  show ?thesis
    unfolding round_double_def b Let_def k q using nz by simp
qed

subsection \<open>Entropy and gain as the code computes them\<close>

text \<open>\<^verbatim>\<open>calculateEntropy\<close> and \<^verbatim>\<open>calculateInformationGain\<close> once more, now with the
  result of every floating-point operation rounded. The conversions of the \<^verbatim>\<open>int\<close>
  counts to \<^verbatim>\<open>double\<close> are exact.\<close>

definition calculateEntropy_double :: "DecisionTree \<Rightarrow> nat list \<Rightarrow> real" where
  "calculateEntropy_double dt indices =
     (if indices = [] then 0
      else
        let counts = countValues dt indices (getColumnIndex dt (targetColumn dt));
            total = length indices
        in fold (\<lambda>pair entropy.
                   let prob = round_double (real (snd pair) / real total)
                   in if prob > 0
                      then round_double (entropy - round_double (prob * log2_double prob))
                      else entropy)
                counts 0)"

definition calculateInformationGain_double :: "DecisionTree \<Rightarrow> nat list \<Rightarrow> string \<Rightarrow> real" where
  "calculateInformationGain_double dt indices feat =
     (let parentEntropy = calculateEntropy_double dt indices;
          featureIdx = getColumnIndex dt feat;
          groups = groupByValue dt indices featureIdx;
          total = length indices;
          weightedEntropy =
            fold (\<lambda>group w.
                    let weight = round_double (real (length (snd group)) / real total)
                    in round_double
                         (w + round_double (weight * calculateEntropy_double dt (snd group))))
                 groups 0
      in round_double (parentEntropy - weightedEntropy))"

subsection \<open>Values of the rounding\<close>

lemma round_double_half [simp]: "round_double (1 / 2) = 1 / 2"
  by (subst round_double_small[where j = 1]) (simp_all add: round_even_def Let_def)

lemma round_double_minus_half [simp]: "round_double (- (1 / 2)) = - (1 / 2)"
  by (subst round_double_small[where j = 1]) (simp_all add: round_even_def Let_def)

lemma round_double_one [simp]: "round_double 1 = 1"
  by (subst round_double_small[where j = 0]) (simp_all add: round_even_def Let_def)

lemma round_double_minus_one [simp]: "round_double (- 1) = - 1"
  by (subst round_double_small[where j = 0]) (simp_all add: round_even_def Let_def)

lemma round_double_zero [simp]: "round_double 0 = 0"
  by (simp add: round_double_def)

lemma log2_double_half [simp]: "log2_double (1 / 2) = - 1"
proof -
  have "log 2 (1 / 2) = - 1" by (simp add: log_divide)
  then show ?thesis by (simp add: log2_double_def)
qed

text \<open>A subset with two classes of \<open>k\<close> rows each has the entropy \<open>1.0\<close>, exactly.\<close>

lemma calculateEntropy_double_balanced:
  assumes "countValues dt indices (getColumnIndex dt (targetColumn dt)) = [(a, k), (b, k)]"
    and "length indices = 2 * k" and "0 < k"
  shows "calculateEntropy_double dt indices = 1"
proof -
  have ne: "indices \<noteq> []" using assms(2,3) by auto
  have p: "real k / real (2 * k) = 1 / 2" using assms(3) by simp
  show ?thesis
    using ne by (simp add: calculateEntropy_double_def assms(1,2) Let_def p del: of_nat_mult)
qed

subsection \<open>A gain below zero\<close>

text \<open>Twenty rows, one feature with the values \<open>a\<close> (4 rows), \<open>b\<close> (8 rows), \<open>c\<close> (6 rows)
  and \<open>d\<close> (2 rows); in every group half of the rows have the class \<open>n\<close> and half the
  class \<open>y\<close>. The feature tells nothing about the class: the exact gain is \<open>0\<close>.\<close>

definition rounding :: DecisionTree where
  "rounding =
     \<lparr>data = [[''a'', ''n''], [''a'', ''n''], [''a'', ''y''], [''a'', ''y''],
              [''b'', ''n''], [''b'', ''n''], [''b'', ''n''], [''b'', ''n''],
              [''b'', ''y''], [''b'', ''y''], [''b'', ''y''], [''b'', ''y''],
              [''c'', ''n''], [''c'', ''n''], [''c'', ''n''],
              [''c'', ''y''], [''c'', ''y''], [''c'', ''y''],
              [''d'', ''n''], [''d'', ''y'']],
      headers = [''f'', ''t''], targetColumn = ''t'', root = None\<rparr>"

lemma rounding_columns:
  "getColumnIndex rounding ''f'' = 0" "getColumnIndex rounding ''t'' = 1"
  "targetColumn rounding = ''t''"
  by (simp_all add: getColumnIndex_def rounding_def)

lemma rounding_all: "[0..<20] = [0, 1, 2, 3, 4, 5, 6, 7, 8, 9, 10, 11, 12, 13, 14, 15, 16, 17, 18, 19 :: nat]"
  by (simp add: upt_rec)

lemma rounding_groups:
  "groupByValue rounding [0..<20] 0 =
     [(''a'', [0, 1, 2, 3]), (''b'', [4, 5, 6, 7, 8, 9, 10, 11]),
      (''c'', [12, 13, 14, 15, 16, 17]), (''d'', [18, 19])]"
  unfolding rounding_all by (simp add: groupByValue_def cell_def rounding_def)

lemma rounding_counts:
  "countValues rounding [0..<20] 1 = [(''n'', 10), (''y'', 10)]"
  "countValues rounding [0, 1, 2, 3] 1 = [(''n'', 2), (''y'', 2)]"
  "countValues rounding [4, 5, 6, 7, 8, 9, 10, 11] 1 = [(''n'', 4), (''y'', 4)]"
  "countValues rounding [12, 13, 14, 15, 16, 17] 1 = [(''n'', 3), (''y'', 3)]"
  "countValues rounding [18, 19] 1 = [(''n'', 1), (''y'', 1)]"
  unfolding rounding_all by (simp_all add: countValues_def cell_def rounding_def)

lemma rounding_entropies:
  "calculateEntropy_double rounding [0..<20] = 1"
  "calculateEntropy_double rounding [0, 1, 2, 3] = 1"
  "calculateEntropy_double rounding [4, 5, 6, 7, 8, 9, 10, 11] = 1"
  "calculateEntropy_double rounding [12, 13, 14, 15, 16, 17] = 1"
  "calculateEntropy_double rounding [18, 19] = 1"
proof -
  note bal = calculateEntropy_double_balanced[where dt = rounding and a = "''n''" and b = "''y''"]
  show "calculateEntropy_double rounding [0..<20] = 1"
    by (rule bal[where k = 10]) (simp_all only: rounding_columns rounding_counts, simp_all)
  show "calculateEntropy_double rounding [0, 1, 2, 3] = 1"
    by (rule bal[where k = 2]) (simp_all only: rounding_columns rounding_counts, simp_all)
  show "calculateEntropy_double rounding [4, 5, 6, 7, 8, 9, 10, 11] = 1"
    by (rule bal[where k = 4]) (simp_all only: rounding_columns rounding_counts, simp_all)
  show "calculateEntropy_double rounding [12, 13, 14, 15, 16, 17] = 1"
    by (rule bal[where k = 3]) (simp_all only: rounding_columns rounding_counts, simp_all)
  show "calculateEntropy_double rounding [18, 19] = 1"
    by (rule bal[where k = 1]) (simp_all only: rounding_columns rounding_counts, simp_all)
qed

text \<open>The four weights and their running sum, as binary64 numbers.\<close>

lemma rounding_weights:
  "round_double (4 / 20) = 3602879701896397 / 18014398509481984"
  "round_double (8 / 20) = 3602879701896397 / 9007199254740992"
  "round_double (6 / 20) = 5404319552844595 / 18014398509481984"
  "round_double (2 / 20) = 3602879701896397 / 36028797018963968"
proof -
  show "round_double (4 / 20) = 3602879701896397 / 18014398509481984"
    by (subst round_double_small[where j = 3]) (simp_all add: round_even_def Let_def)
  show "round_double (8 / 20) = 3602879701896397 / 9007199254740992"
    by (subst round_double_small[where j = 2]) (simp_all add: round_even_def Let_def)
  show "round_double (6 / 20) = 5404319552844595 / 18014398509481984"
    by (subst round_double_small[where j = 2]) (simp_all add: round_even_def Let_def)
  show "round_double (2 / 20) = 3602879701896397 / 36028797018963968"
    by (subst round_double_small[where j = 4]) (simp_all add: round_even_def Let_def)
qed

lemma rounding_products:
  "round_double (3602879701896397 / 18014398509481984) = 3602879701896397 / 18014398509481984"
  "round_double (3602879701896397 / 9007199254740992) = 3602879701896397 / 9007199254740992"
  "round_double (5404319552844595 / 18014398509481984) = 5404319552844595 / 18014398509481984"
  "round_double (3602879701896397 / 36028797018963968) = 3602879701896397 / 36028797018963968"
proof -
  show "round_double (3602879701896397 / 18014398509481984) = 3602879701896397 / 18014398509481984"
    by (subst round_double_small[where j = 3]) (simp_all add: round_even_def Let_def)
  show "round_double (3602879701896397 / 9007199254740992) = 3602879701896397 / 9007199254740992"
    by (subst round_double_small[where j = 2]) (simp_all add: round_even_def Let_def)
  show "round_double (5404319552844595 / 18014398509481984) = 5404319552844595 / 18014398509481984"
    by (subst round_double_small[where j = 2]) (simp_all add: round_even_def Let_def)
  show "round_double (3602879701896397 / 36028797018963968) = 3602879701896397 / 36028797018963968"
    by (subst round_double_small[where j = 4]) (simp_all add: round_even_def Let_def)
qed

lemma rounding_sums:
  "round_double (3602879701896397 / 18014398509481984 + 3602879701896397 / 9007199254740992)
     = 1351079888211149 / 2251799813685248"
  "round_double (1351079888211149 / 2251799813685248 + 5404319552844595 / 18014398509481984)
     = 4053239664633447 / 4503599627370496"
  "round_double (4053239664633447 / 4503599627370496 + 3602879701896397 / 36028797018963968)
     = 4503599627370497 / 4503599627370496"
  "round_double (1 - 4503599627370497 / 4503599627370496) = - (1 / 4503599627370496)"
proof -
  show "round_double (3602879701896397 / 18014398509481984 + 3602879701896397 / 9007199254740992)
     = 1351079888211149 / 2251799813685248"
    by (subst round_double_small[where j = 1]) (simp_all add: round_even_def Let_def)
  show "round_double (1351079888211149 / 2251799813685248 + 5404319552844595 / 18014398509481984)
     = 4053239664633447 / 4503599627370496"
    by (subst round_double_small[where j = 1]) (simp_all add: round_even_def Let_def)
  show "round_double (4053239664633447 / 4503599627370496 + 3602879701896397 / 36028797018963968)
     = 4503599627370497 / 4503599627370496"
    by (subst round_double_small[where j = 0]) (simp_all add: round_even_def Let_def)
  show "round_double (1 - 4503599627370497 / 4503599627370496) = - (1 / 4503599627370496)"
    by (subst round_double_small[where j = 52]) (simp_all add: round_even_def Let_def)
qed

lemma rounding_lengths:
  "real (length [0, 1, 2, 3 :: nat]) / real (length [0..<20]) = 4 / 20"
  "real (length [4, 5, 6, 7, 8, 9, 10, 11 :: nat]) / real (length [0..<20]) = 8 / 20"
  "real (length [12, 13, 14, 15, 16, 17 :: nat]) / real (length [0..<20]) = 6 / 20"
  "real (length [18, 19 :: nat]) / real (length [0..<20]) = 2 / 20"
  by simp_all

text \<open>C6 (as stated, refuted): on this subset the gain that the code computes for the
  feature \<open>f\<close> is \<open>- 2^-52\<close>. The parent entropy and the four group entropies are \<open>1.0\<close>
  (every logarithm taken is \<open>log2(0.5)\<close> and every product is exact); the rounded weights
  \<open>4/20\<close>, \<open>8/20\<close>, \<open>6/20\<close>, \<open>2/20\<close> add up, in the key order of the \<^verbatim>\<open>std::map\<close>, to
  \<open>1 + 2^-52\<close>.\<close>

theorem information_gain_negative_counterexample:
  "valid_dataset rounding \<and> valid_subset rounding [0..<20] \<and>
   calculateInformationGain_double rounding [0..<20] ''f'' = - (1 / 4503599627370496) \<and>
   calculateInformationGain_double rounding [0..<20] ''f'' < 0"
proof -
  have v: "valid_dataset rounding" "valid_subset rounding [0..<20]"
    by (simp_all add: valid_dataset_def valid_subset_def rounding_def list_all_iff)
  have g: "calculateInformationGain_double rounding [0..<20] ''f'' = - (1 / 4503599627370496)"
    unfolding calculateInformationGain_double_def Let_def rounding_columns rounding_groups
    by (simp only: fold_simps snd_conv rounding_entropies rounding_lengths rounding_weights
        mult_1_right add_0 rounding_products rounding_sums)
  then have "calculateInformationGain_double rounding [0..<20] ''f'' < 0" by simp
  with v g show ?thesis by (intro conjI)
qed

subsection \<open>The error of one rounding\<close>

text \<open>A rounding moves a number by at most \<open>2^-53\<close> of its magnitude, or by half the
  quantum \<open>2^-1074\<close> of the subnormal numbers.\<close>

lemma round_even_error: "\<bar>of_int (round_even y) - y\<bar> \<le> 1 / 2"
  unfolding round_even_def Let_def by (auto simp: abs_if) linarith+

lemma binade_le:
  assumes "x \<noteq> 0"
  shows "2 powr of_int (binade x) \<le> \<bar>x\<bar>"
proof -
  have "of_int (binade x) \<le> log 2 \<bar>x\<bar>" unfolding binade_def by simp
  then show ?thesis using assms by (simp add: le_log_iff)
qed

lemma round_double_error: "\<bar>round_double x - x\<bar> \<le> \<bar>x\<bar> / 2 ^ 53 + 1 / 2 ^ 1075"
proof (cases "x = 0")
  case True
  then show ?thesis by (simp add: round_double_def)
next
  case False
  define k where "k = max (binade x - 52) (- 1074)"
  define q :: real where "q = 2 powr of_int k"
  have q: "0 < q" by (simp add: q_def)
  have rd: "round_double x = of_int (round_even (x / q)) * q"
    using False by (simp add: round_double_def Let_def k_def q_def)
  have "round_double x - x = (of_int (round_even (x / q)) - x / q) * q"
    using q by (simp add: rd left_diff_distrib)
  then have "\<bar>round_double x - x\<bar> = \<bar>of_int (round_even (x / q)) - x / q\<bar> * q"
    using q by (simp add: abs_mult)
  also have "\<dots> \<le> 1 / 2 * q"
    using q round_even_error[of "x / q"] by (intro mult_right_mono) simp_all
  finally have e: "\<bar>round_double x - x\<bar> \<le> q / 2" by simp
  have "q \<le> \<bar>x\<bar> / 2 ^ 52 + 1 / 2 ^ 1074"
  proof (cases "binade x - 52 \<le> - 1074")
    case True
    then have "k = - 1074" by (simp add: k_def)
    then have "q = 2 powr (- 1074)" by (simp add: q_def)
    also have "\<dots> = 1 / 2 ^ 1074" by (simp add: powr_minus powr_realpow divide_simps flip: powr_realpow)
    finally show ?thesis by simp
  next
    case False
    then have "k = binade x - 52" by (simp add: k_def)
    then have "q = 2 powr (of_int (binade x) - 52)" by (simp add: q_def)
    also have "\<dots> = 2 powr of_int (binade x) / 2 powr 52" by (simp add: powr_diff)
    also have "(2::real) powr 52 = 2 ^ 52" by (simp add: powr_realpow flip: powr_realpow)
    finally have "q = 2 powr of_int (binade x) / 2 ^ 52" .
    also have "\<dots> \<le> \<bar>x\<bar> / 2 ^ 52"
      using binade_le[OF \<open>x \<noteq> 0\<close>] by (simp add: divide_right_mono)
    finally show ?thesis by simp
  qed
  with e show ?thesis by simp
qed

text \<open>The unit roundoff of binary64.\<close>

definition unit_roundoff :: real where
  "unit_roundoff = 1 / 2 ^ 53"

lemma unit_roundoff_bounds: "0 < unit_roundoff" "4096 * unit_roundoff \<le> 1"
  by (simp_all add: unit_roundoff_def)

lemma round_double_error_bounded:
  assumes "\<bar>x\<bar> \<le> B"
  shows "\<bar>round_double x - x\<bar> \<le> (B + 1) * unit_roundoff"
proof -
  have "(1::real) / 2 ^ 1075 \<le> 1 / 2 ^ 53" by simp
  moreover have "\<bar>x\<bar> / 2 ^ 53 \<le> B / 2 ^ 53" using assms by (simp add: divide_right_mono)
  ultimately have "\<bar>round_double x - x\<bar> \<le> B / 2 ^ 53 + 1 / 2 ^ 53"
    using round_double_error[of x] by linarith
  then show ?thesis by (simp add: unit_roundoff_def add_divide_distrib)
qed

lemma round_double_error_relative:
  assumes "1 / 2 ^ 31 \<le> x"
  shows "\<bar>round_double x - x\<bar> \<le> 2 * unit_roundoff * x"
proof -
  have "(1::real) / 2 ^ 1075 \<le> 1 / 2 ^ 31 / 2 ^ 53" by simp
  also have "\<dots> \<le> x / 2 ^ 53" using assms by (intro divide_right_mono) simp_all
  finally have a: "(1::real) / 2 ^ 1075 \<le> x / 2 ^ 53" .
  have "(0::real) < 1 / 2 ^ 31" by simp
  with assms have "0 < x" by linarith
  then have "\<bar>x\<bar> / 2 ^ 53 = x / 2 ^ 53" by simp
  with a round_double_error[of x] have "\<bar>round_double x - x\<bar> \<le> x / 2 ^ 53 + x / 2 ^ 53"
    by linarith
  then show ?thesis by (simp add: unit_roundoff_def)
qed

lemma ln_2_ge_half: "1 / 2 \<le> ln (2::real)"
proof -
  have "ln (1 - 1 / 2) \<le> - (1 / 2 :: real)"
    by (rule ln_one_minus_pos_upper_bound) simp_all
  moreover have "ln (1 - 1 / 2 :: real) = - ln 2" by (simp add: ln_div)
  ultimately show ?thesis by simp
qed

lemma abs_ln_near_one:
  fixes r d :: real
  assumes "\<bar>r - 1\<bar> \<le> d" "d \<le> 1 / 2"
  shows "\<bar>ln r\<bar> \<le> 2 * d"
proof -
  have r: "1 / 2 \<le> r" "0 < r" using assms by linarith+
  have up: "ln r \<le> r - 1" using r(2) by (rule ln_le_minus_one)
  have "ln (1 / r) \<le> 1 / r - 1" using r(2) by (intro ln_le_minus_one) simp
  then have "- ln r \<le> (1 - r) / r" using r(2) by (simp add: ln_div field_simps)
  also have "\<dots> \<le> \<bar>r - 1\<bar> / r" using r(2) by (intro divide_right_mono) simp_all
  also have "\<dots> \<le> d / r" using assms(1) r(2) by (intro divide_right_mono) simp_all
  also have "\<dots> \<le> d / (1 / 2)"
  proof -
    have "0 \<le> d" using assms(1) by linarith
    then show ?thesis using r(1) by (intro divide_left_mono) simp_all
  qed
  finally have lo: "- ln r \<le> 2 * d" by simp
  have "0 \<le> d" using assms(1) by linarith
  with up assms(1) have "ln r \<le> 2 * d" by linarith
  with lo show ?thesis by linarith
qed

lemma abs_log2_near_one:
  fixes r d :: real
  assumes "\<bar>r - 1\<bar> \<le> d" "d \<le> 1 / 2"
  shows "\<bar>log 2 r\<bar> \<le> 4 * d"
proof -
  have d: "0 \<le> d" using assms(1) by linarith
  have "\<bar>log 2 r\<bar> = \<bar>ln r\<bar> / ln 2" by (simp add: log_def)
  also have "\<dots> \<le> 2 * d / ln 2"
    using abs_ln_near_one[OF assms] by (intro divide_right_mono) simp_all
  also have "\<dots> \<le> 2 * d / (1 / 2)"
    using d ln_2_ge_half by (intro divide_left_mono) simp_all
  finally show ?thesis by simp
qed

lemma mult_error:
  fixes x y xh yh :: real
  assumes "\<bar>xh - x\<bar> \<le> ex" "\<bar>yh - y\<bar> \<le> ey" "\<bar>xh\<bar> \<le> X" "\<bar>y\<bar> \<le> Y"
  shows "\<bar>xh * yh - x * y\<bar> \<le> X * ey + ex * Y"
proof -
  have "xh * yh - x * y = xh * (yh - y) + (xh - x) * y" by (simp add: algebra_simps)
  then have "\<bar>xh * yh - x * y\<bar> \<le> \<bar>xh\<bar> * \<bar>yh - y\<bar> + \<bar>xh - x\<bar> * \<bar>y\<bar>"
    by (simp only: abs_mult[symmetric] abs_triangle_ineq)
  also have "\<bar>xh\<bar> * \<bar>yh - y\<bar> \<le> X * ey"
    using assms(2,3) by (intro mult_mono; linarith)
  also have "\<bar>xh - x\<bar> * \<bar>y\<bar> \<le> ex * Y"
    using assms(1,4) by (intro mult_mono; linarith)
  finally show ?thesis by simp
qed

lemma sum_error:
  fixes r x y xh yh :: real
  assumes "\<bar>r - (xh + yh)\<bar> \<le> er" "\<bar>xh - x\<bar> \<le> ex" "\<bar>yh - y\<bar> \<le> ey"
  shows "\<bar>r - (x + y)\<bar> \<le> er + ex + ey"
  using assms by linarith

subsection \<open>The error of one term of the entropy\<close>

text \<open>A class with \<open>c\<close> of the \<open>n\<close> rows, \<open>n < 2^31\<close> as an \<^verbatim>\<open>int\<close> holds it: the probability
  is rounded, its logarithm is rounded, and their product is rounded.\<close>

lemma prob_bounds:
  fixes c n :: nat
  assumes "0 < c" "c \<le> n" "n < 2 ^ 31"
  shows "1 / 2 ^ 31 \<le> real c / real n" "real c / real n \<le> 1"
proof -
  have n: "0 < real n" using assms(1,2) by simp
  have c1: "1 \<le> real c" using assms(1) by simp
  have "real n \<le> 2 ^ 31" using assms(3) by simp
  also have "(2::real) ^ 31 = 2 ^ 31 * 1" by simp
  also have "\<dots> \<le> 2 ^ 31 * real c" using c1 by (intro mult_left_mono) simp_all
  finally show "1 / 2 ^ 31 \<le> real c / real n" using n by (simp add: field_simps)
  show "real c / real n \<le> 1" using assms(2) n by simp
qed

lemma plogp_bounds:
  fixes p :: real
  assumes "1 / 2 ^ 31 \<le> p" "p \<le> 1"
  shows "\<bar>log 2 p\<bar> \<le> 31" "p * log 2 p \<le> 0" "- (p * log 2 p) \<le> 31 * p"
proof -
  have "(0::real) < 1 / 2 ^ 31" by simp
  with assms(1) have p: "0 < p" by linarith
  have up: "log 2 p \<le> 0" using p assms(2) by simp
  have "log 2 (1 / 2 ^ 31) \<le> log 2 p" using assms(1) p by simp
  moreover have "log 2 (1 / 2 ^ 31) = - log 2 (2 ^ 31)" by (rule log_recip)
  moreover have "log 2 ((2::real) ^ 31) = real 31" by (rule log_pow_cancel) simp_all
  ultimately have lo: "- 31 \<le> log 2 p" by simp
  from up lo show "\<bar>log 2 p\<bar> \<le> 31" by simp
  from up p show "p * log 2 p \<le> 0" by (simp add: mult_le_0_iff)
  have "p * (- log 2 p) \<le> p * 31" using lo p by (intro mult_left_mono) simp_all
  then show "- (p * log 2 p) \<le> 31 * p" by simp
qed

lemma entropy_term_error:
  fixes p :: real
  assumes "1 / 2 ^ 31 \<le> p" "p \<le> 1"
  shows "0 < round_double p"
    and "\<bar>round_double (round_double p * log2_double (round_double p)) - p * log 2 p\<bar>
           \<le> 166 * unit_roundoff"
proof -
  let ?ph = "round_double p"
  let ?lh = "log2_double ?ph"
  let ?u = unit_roundoff
  note u = unit_roundoff_bounds
  have "(0::real) < 1 / 2 ^ 31" by simp
  with assms(1) have p: "0 < p" by linarith
  have ep: "\<bar>?ph - p\<bar> \<le> 2 * ?u * p" using assms(1) by (rule round_double_error_relative)
  have "2 * ?u * p \<le> 1 / 2 * p" using u p by (intro mult_right_mono) simp_all
  with ep p show ph: "0 < ?ph" by linarith
  have "2 * ?u * p \<le> 2 * ?u * 1" using assms(2) u(1) by (intro mult_left_mono) simp_all
  with ep have ep1: "\<bar>?ph - p\<bar> \<le> 2 * ?u" by simp
  have phb: "\<bar>?ph\<bar> \<le> 33 / 32" using ep1 assms(2) p u by linarith
  have "?ph / p - 1 = (?ph - p) / p" using p by (simp add: field_simps)
  then have "\<bar>?ph / p - 1\<bar> = \<bar>?ph - p\<bar> / p" using p by (simp add: abs_divide)
  also have "\<dots> \<le> 2 * ?u * p / p" using ep p by (intro divide_right_mono) simp_all
  finally have r: "\<bar>?ph / p - 1\<bar> \<le> 2 * ?u" using p by simp
  have "\<bar>log 2 (?ph / p)\<bar> \<le> 4 * (2 * ?u)"
    using r by (rule abs_log2_near_one) (use u in linarith)
  moreover have "log 2 (?ph / p) = log 2 ?ph - log 2 p" using ph p by (simp add: log_divide)
  ultimately have el: "\<bar>log 2 ?ph - log 2 p\<bar> \<le> 8 * ?u" by simp
  have lb: "\<bar>log 2 p\<bar> \<le> 31" using assms by (rule plogp_bounds)
  have "\<bar>log 2 ?ph\<bar> \<le> 32" using el lb u by linarith
  then have "\<bar>?lh - log 2 ?ph\<bar> \<le> (32 + 1) * ?u"
    unfolding log2_double_def by (rule round_double_error_bounded)
  then have "\<bar>?lh - log 2 ?ph\<bar> \<le> 33 * ?u" by simp
  with el have elh: "\<bar>?lh - log 2 p\<bar> \<le> 41 * ?u" by linarith
  have lhb: "\<bar>?lh\<bar> \<le> 32" using elh lb u by linarith
  have "\<bar>?ph * ?lh - p * log 2 p\<bar> \<le> 33 / 32 * (41 * ?u) + 2 * ?u * 31"
    using ep1 elh phb lb by (rule mult_error)
  then have eprod: "\<bar>?ph * ?lh - p * log 2 p\<bar> \<le> 105 * ?u" using u by linarith
  have "\<bar>?ph\<bar> * \<bar>?lh\<bar> \<le> 33 / 32 * 32"
    using phb lhb by (intro mult_mono) simp_all
  then have "\<bar>?ph * ?lh\<bar> \<le> 33" by (simp add: abs_mult)
  then have "\<bar>round_double (?ph * ?lh) - ?ph * ?lh\<bar> \<le> (33 + 1) * ?u"
    by (rule round_double_error_bounded)
  then have "\<bar>round_double (?ph * ?lh) - ?ph * ?lh\<bar> \<le> 34 * ?u" by simp
  with eprod show "\<bar>round_double (?ph * ?lh) - p * log 2 p\<bar> \<le> 166 * ?u"
    using u by linarith
qed

subsection \<open>The error of the entropy\<close>

text \<open>The loop over the counts, with rounding and without, started at accumulators that
  differ by the error of \<open>k\<close> earlier terms. Every term adds at most \<open>256\<close> unit roundoffs:
  \<open>166\<close> for the term and \<open>65\<close> for the subtraction, whose operands stay below \<open>32\<close>.\<close>

lemma entropy_fold_error:
  fixes n k :: nat and ps :: "(string \<times> nat) list" and a ah :: real
  assumes "n < 2 ^ 31"
    and "\<forall>pair\<in>set ps. 0 < snd pair \<and> snd pair \<le> n"
    and "\<bar>ah - a\<bar> \<le> real k * (256 * unit_roundoff)" and "0 \<le> a"
    and "a + 31 * (\<Sum>pair\<leftarrow>ps. real (snd pair) / real n) \<le> 31"
    and "k + length ps \<le> 2 ^ 31"
  shows "\<bar>fold (\<lambda>pair entropy.
                 let prob = round_double (real (snd pair) / real n)
                 in if prob > 0
                    then round_double (entropy - round_double (prob * log2_double prob))
                    else entropy) ps ah
          - fold (\<lambda>pair entropy.
                    let prob = real (snd pair) / real n
                    in if prob > 0 then entropy - prob * log 2 prob else entropy) ps a\<bar>
           \<le> real (k + length ps) * (256 * unit_roundoff)
         \<and> 0 \<le> fold (\<lambda>pair entropy.
                    let prob = real (snd pair) / real n
                    in if prob > 0 then entropy - prob * log 2 prob else entropy) ps a
         \<and> fold (\<lambda>pair entropy.
                    let prob = real (snd pair) / real n
                    in if prob > 0 then entropy - prob * log 2 prob else entropy) ps a \<le> 31"
  using assms(2-6)
proof (induction ps arbitrary: a ah k)
  case Nil
  then show ?case by simp
next
  case (Cons x xs)
  let ?u = unit_roundoff
  note u = unit_roundoff_bounds
  let ?p = "real (snd x) / real n"
  let ?ph = "round_double ?p"
  let ?th = "round_double (?ph * log2_double ?ph)"
  let ?T = "?p * log 2 ?p"
  let ?S = "\<Sum>pair\<leftarrow>xs. real (snd pair) / real n"
  define e where "e = real k * (256 * ?u)"
  from Cons.prems(1) have c: "0 < snd x" "snd x \<le> n" by simp_all
  have pb: "1 / 2 ^ 31 \<le> ?p" "?p \<le> 1" using c assms(1) by (rule prob_bounds)+
  have "(0::real) < 1 / 2 ^ 31" by simp
  with pb(1) have p: "0 < ?p" by linarith
  have ph: "0 < ?ph" using pb by (rule entropy_term_error)
  have et: "\<bar>?th - ?T\<bar> \<le> 166 * ?u" using pb by (rule entropy_term_error)
  have T: "?T \<le> 0" "- ?T \<le> 31 * ?p" using pb by (rule plogp_bounds)+
  have S: "0 \<le> ?S" by (rule sum_list_nonneg) auto
  have a31: "a + 31 * ?p + 31 * ?S \<le> 31" using Cons.prems(4) by (simp add: algebra_simps)
  have "real k \<le> 2 ^ 31"
  proof -
    have "k \<le> 2 ^ 31" using Cons.prems(5) by simp
    then have "real k \<le> real (2 ^ 31)" by (simp only: of_nat_le_iff)
    then show ?thesis by simp
  qed
  then have "e \<le> 2 ^ 31 * (256 * ?u)"
    unfolding e_def using u(1) by (intro mult_right_mono) simp_all
  also have "\<dots> \<le> 1" by (simp add: unit_roundoff_def)
  finally have e1: "e \<le> 1" .
  have e0: "\<bar>ah - a\<bar> \<le> e" using Cons.prems(2) by (simp add: e_def)
  have "\<bar>ah - ?th\<bar> \<le> 64" using e0 e1 et T a31 S Cons.prems(3) u by linarith
  then have "\<bar>round_double (ah - ?th) - (ah - ?th)\<bar> \<le> (64 + 1) * ?u"
    by (rule round_double_error_bounded)
  then have "\<bar>round_double (ah - ?th) - (ah - ?th)\<bar> \<le> 65 * ?u" by simp
  with e0 et u have "\<bar>round_double (ah - ?th) - (a - ?T)\<bar> \<le> e + 256 * ?u" by linarith
  also have "e + 256 * ?u = real (Suc k) * (256 * ?u)" by (simp add: e_def algebra_simps)
  finally have step: "\<bar>round_double (ah - ?th) - (a - ?T)\<bar> \<le> real (Suc k) * (256 * ?u)" .
  have nonneg: "0 \<le> a - ?T" using T(1) Cons.prems(3) by linarith
  have bound: "a - ?T + 31 * ?S \<le> 31" using T(2) a31 by linarith
  have len: "Suc k + length xs \<le> 2 ^ 31" using Cons.prems(5) by simp
  have rest: "\<forall>pair\<in>set xs. 0 < snd pair \<and> snd pair \<le> n" using Cons.prems(1) by simp
  from Cons.IH[OF rest step nonneg bound len] show ?case
    using ph p by (simp add: Let_def)
qed

lemma calculateEntropy_double_error:
  assumes "length indices < 2 ^ 31"
  shows "\<bar>calculateEntropy_double dt indices - calculateEntropy dt indices\<bar>
           \<le> real (length indices) * (256 * unit_roundoff)
         \<and> calculateEntropy dt indices \<le> 31"
proof (cases "indices = []")
  case True
  then show ?thesis by (simp add: calculateEntropy_double_def calculateEntropy_def)
next
  case False
  let ?cls = "\<lambda>i. cell dt i (getColumnIndex dt (targetColumn dt))"
  let ?cnt = "\<lambda>v. length (filter (\<lambda>i. ?cls i = v) indices)"
  let ?n = "length indices"
  let ?S = "?cls ` set indices"
  let ?ps = "map (\<lambda>v. (v, ?cnt v)) (sorted_list_of_set ?S)"
  let ?u = unit_roundoff
  have n: "0 < ?n" using False by simp
  have ps: "countValues dt indices (getColumnIndex dt (targetColumn dt)) = ?ps"
    by (rule countValues_eq)
  have counts: "\<forall>pair\<in>set ?ps. 0 < snd pair \<and> snd pair \<le> ?n"
  proof
    fix pair assume "pair \<in> set ?ps"
    then obtain v where v: "v \<in> ?S" "pair = (v, ?cnt v)" by auto
    from v(1) have "0 < ?cnt v" by (simp only: filter_pos_iff)
    moreover have "?cnt v \<le> ?n" by simp
    ultimately show "0 < snd pair \<and> snd pair \<le> ?n" by (simp add: v(2))
  qed
  have "(\<Sum>pair\<leftarrow>?ps. real (snd pair) / real ?n) = (\<Sum>v\<in>?S. real (?cnt v) / real ?n)"
    by (simp add: sum_list_distinct_conv_sum_set comp_def)
  also have "\<dots> = (\<Sum>v\<in>?S. real (?cnt v)) / real ?n" by (simp only: sum_divide_distrib)
  also have "(\<Sum>v\<in>?S. real (?cnt v)) = real ?n"
    by (rule sum_real_length_filter_eq) simp_all
  finally have mass: "(\<Sum>pair\<leftarrow>?ps. real (snd pair) / real ?n) = 1" using n by simp
  have "length ?ps = card ?S" by simp
  also have "\<dots> \<le> card (set indices)" by (rule card_image_le) simp
  also have "\<dots> \<le> ?n" by (rule card_length)
  finally have len: "length ?ps \<le> ?n" .
  have a0: "\<bar>(0::real) - 0\<bar> \<le> real (0::nat) * (256 * ?u)" by simp
  have m31: "(0::real) + 31 * (\<Sum>pair\<leftarrow>?ps. real (snd pair) / real ?n) \<le> 31"
    by (simp only: mass)
  have k: "0 + length ?ps \<le> 2 ^ 31" using len assms by simp
  note r = entropy_fold_error[OF assms counts a0 order_refl m31 k]
  have d: "calculateEntropy_double dt indices =
      fold (\<lambda>pair entropy.
                 let prob = round_double (real (snd pair) / real ?n)
                 in if prob > 0
                    then round_double (entropy - round_double (prob * log2_double prob))
                    else entropy) ?ps 0"
    using False by (simp only: calculateEntropy_double_def ps Let_def if_False)
  have x: "calculateEntropy dt indices =
      fold (\<lambda>pair entropy.
                    let prob = real (snd pair) / real ?n
                    in if prob > 0 then entropy - prob * log 2 prob else entropy) ?ps 0"
    using False by (simp only: calculateEntropy_def ps Let_def if_False)
  have mono: "real (0 + length ?ps) * (256 * ?u) \<le> real ?n * (256 * ?u)"
    using len unit_roundoff_bounds(1) by (intro mult_right_mono) simp_all
  show ?thesis
    unfolding d x
    apply (rule conjI)
     apply (rule order_trans[OF conjunct1[OF r] mono])
    apply (rule conjunct2[OF conjunct2[OF r]])
    done
qed

subsection \<open>The error of the weighted sum\<close>

text \<open>The loop over the groups, with rounding and without. A group of \<open>m\<close> rows adds at
  most \<open>512 m\<close> unit roundoffs: its entropy is off by at most \<open>256 m\<close>, the weight, the
  product and the sum are rounded once each.\<close>

lemma weighted_fold_error:
  fixes N k :: nat and gs :: "(string \<times> nat list) list" and w wh :: real
  assumes "N < 2 ^ 31"
    and "\<forall>g\<in>set gs. 0 < length (snd g) \<and> length (snd g) \<le> N"
    and "\<bar>wh - w\<bar> \<le> real k * (512 * unit_roundoff)" and "0 \<le> w"
    and "w + 31 * (\<Sum>g\<leftarrow>gs. real (length (snd g)) / real N) \<le> 31"
    and "k + (\<Sum>g\<leftarrow>gs. length (snd g)) \<le> 2 ^ 31"
  shows "\<bar>fold (\<lambda>group w.
                 let weight = round_double (real (length (snd group)) / real N)
                 in round_double
                      (w + round_double (weight * calculateEntropy_double dt (snd group))))
               gs wh
          - fold (\<lambda>group w. w + (real (length (snd group)) / real N)
                                   * calculateEntropy dt (snd group)) gs w\<bar>
           \<le> real (k + (\<Sum>g\<leftarrow>gs. length (snd g))) * (512 * unit_roundoff)
         \<and> 0 \<le> fold (\<lambda>group w. w + (real (length (snd group)) / real N)
                                     * calculateEntropy dt (snd group)) gs w
         \<and> fold (\<lambda>group w. w + (real (length (snd group)) / real N)
                                 * calculateEntropy dt (snd group)) gs w \<le> 31"
  using assms(2-6)
proof (induction gs arbitrary: w wh k)
  case Nil
  then show ?case by simp
next
  case (Cons g gs)
  let ?u = unit_roundoff
  note u = unit_roundoff_bounds
  let ?m = "length (snd g)"
  let ?wt = "real ?m / real N"
  let ?wth = "round_double ?wt"
  let ?Hd = "calculateEntropy_double dt (snd g)"
  let ?H = "calculateEntropy dt (snd g)"
  let ?xh = "round_double (?wth * ?Hd)"
  let ?S = "\<Sum>g\<leftarrow>gs. real (length (snd g)) / real N"
  define e where "e = real k * (512 * ?u)"
  define mu where "mu = real ?m * ?u"
  from Cons.prems(1) have m: "0 < ?m" "?m \<le> N" by simp_all
  have m31: "?m < 2 ^ 31" using m(2) assms(1) by simp
  have wb: "1 / 2 ^ 31 \<le> ?wt" "?wt \<le> 1" using m assms(1) by (rule prob_bounds)+
  have "(0::real) < 1 / 2 ^ 31" by simp
  with wb(1) have wt: "0 < ?wt" by linarith
  from m(1) have "Suc 0 \<le> ?m" by (rule Suc_leI)
  then have "real (Suc 0) \<le> real ?m" by (simp only: of_nat_le_iff)
  then have m1: "1 \<le> real ?m" by simp
  have "1 * ?u \<le> real ?m * ?u" using m1 u(1) by (intro mult_right_mono) simp_all
  then have mu_lo: "?u \<le> mu" by (simp add: mu_def)
  have "real ?m \<le> 2 ^ 31" using m31 by simp
  then have "mu \<le> 2 ^ 31 * ?u" unfolding mu_def using u(1) by (intro mult_right_mono) simp_all
  also have "\<dots> \<le> 1 / 4096" by (simp add: unit_roundoff_def)
  finally have mu_hi: "mu \<le> 1 / 4096" .
  have "real k \<le> 2 ^ 31"
  proof -
    have "k \<le> 2 ^ 31" using Cons.prems(5) by simp
    then have "real k \<le> real (2 ^ 31)" by (simp only: of_nat_le_iff)
    then show ?thesis by simp
  qed
  then have "e \<le> 2 ^ 31 * (512 * ?u)"
    unfolding e_def using u(1) by (intro mult_right_mono) simp_all
  also have "\<dots> \<le> 1" by (simp add: unit_roundoff_def)
  finally have e1: "e \<le> 1" .
  have e0: "\<bar>wh - w\<bar> \<le> e" using Cons.prems(2) by (simp add: e_def)
  have H: "\<bar>?Hd - ?H\<bar> \<le> 256 * mu" "?H \<le> 31"
    using calculateEntropy_double_error[OF m31, of dt] by (simp_all add: mu_def)
  have H0: "0 \<le> ?H" by (rule calculateEntropy_nonneg)
  have ew: "\<bar>?wth - ?wt\<bar> \<le> 2 * ?u * ?wt" using wb(1) by (rule round_double_error_relative)
  have "2 * ?u * ?wt \<le> 2 * ?u * 1" using wb(2) u(1) by (intro mult_left_mono) simp_all
  with ew have ew1: "\<bar>?wth - ?wt\<bar> \<le> 2 * ?u" by simp
  have wthb: "\<bar>?wth\<bar> \<le> 33 / 32" using ew1 wb(2) wt u by linarith
  have Hb: "\<bar>?H\<bar> \<le> 31" using H(2) H0 by simp
  have Hdb: "\<bar>?Hd\<bar> \<le> 32" using H(1) Hb mu_hi by linarith
  have "\<bar>?wth * ?Hd - ?wt * ?H\<bar> \<le> 33 / 32 * (256 * mu) + 2 * ?u * 31"
    using ew1 H(1) wthb Hb by (rule mult_error)
  then have eprod: "\<bar>?wth * ?Hd - ?wt * ?H\<bar> \<le> 264 * mu + 62 * ?u" by simp
  have "\<bar>?wth\<bar> * \<bar>?Hd\<bar> \<le> 33 / 32 * 32"
    using wthb Hdb by (intro mult_mono) simp_all
  then have "\<bar>?wth * ?Hd\<bar> \<le> 33" by (simp add: abs_mult)
  then have "\<bar>?xh - ?wth * ?Hd\<bar> \<le> (33 + 1) * ?u"
    by (rule round_double_error_bounded)
  then have "\<bar>?xh - ?wth * ?Hd\<bar> \<le> 34 * ?u" by simp
  with eprod have ex: "\<bar>?xh - ?wt * ?H\<bar> \<le> 264 * mu + 96 * ?u" by linarith
  have x0: "0 \<le> ?wt * ?H" using wt H0 by simp
  have "?wt * ?H \<le> ?wt * 31" using H(2) wt by (intro mult_left_mono) simp_all
  then have x31: "?wt * ?H \<le> 31 * ?wt" by (simp only: mult.commute[of 31])
  have S: "0 \<le> ?S" by (rule sum_list_nonneg) auto
  have w31: "w + 31 * ?wt + 31 * ?S \<le> 31" using Cons.prems(4) by (simp add: algebra_simps)
  have "\<bar>wh + ?xh\<bar> \<le> 64" using e0 e1 ex x0 x31 w31 S Cons.prems(3) mu_hi u by linarith
  then have "\<bar>round_double (wh + ?xh) - (wh + ?xh)\<bar> \<le> (64 + 1) * ?u"
    by (rule round_double_error_bounded)
  then have "\<bar>round_double (wh + ?xh) - (wh + ?xh)\<bar> \<le> 65 * ?u" by simp
  then have "\<bar>round_double (wh + ?xh) - (w + ?wt * ?H)\<bar> \<le> 65 * ?u + e + (264 * mu + 96 * ?u)"
    using e0 ex by (rule sum_error)
  with mu_lo u(1) have "\<bar>round_double (wh + ?xh) - (w + ?wt * ?H)\<bar> \<le> e + 512 * mu"
    by linarith
  also have "e + 512 * mu = real (k + ?m) * (512 * ?u)"
    by (simp add: e_def mu_def algebra_simps)
  finally have step: "\<bar>round_double (wh + ?xh) - (w + ?wt * ?H)\<bar>
      \<le> real (k + ?m) * (512 * ?u)" .
  have nonneg: "0 \<le> w + ?wt * ?H" using x0 Cons.prems(3) by linarith
  have bound: "w + ?wt * ?H + 31 * ?S \<le> 31" using x31 w31 by linarith
  have len: "k + ?m + (\<Sum>g\<leftarrow>gs. length (snd g)) \<le> 2 ^ 31" using Cons.prems(5) by simp
  have rest: "\<forall>g\<in>set gs. 0 < length (snd g) \<and> length (snd g) \<le> N"
    using Cons.prems(1) by simp
  from Cons.IH[OF rest step nonneg bound len] show ?case
    by (simp add: Let_def add.assoc)
qed

subsection \<open>The error of the gain\<close>

lemma calculateInformationGain_double_error:
  assumes "length indices < 2 ^ 31"
  shows "\<bar>calculateInformationGain_double dt indices feat
            - calculateInformationGain dt indices feat\<bar>
           \<le> real (length indices) * (1024 * unit_roundoff)"
proof (cases "indices = []")
  case True
  then show ?thesis
    by (simp add: calculateInformationGain_double_def calculateInformationGain_def
        calculateEntropy_double_def calculateEntropy_def groupByValue_eq)
next
  case False
  let ?u = unit_roundoff
  note u = unit_roundoff_bounds
  let ?g = "\<lambda>i. cell dt i (getColumnIndex dt feat)"
  let ?sub = "\<lambda>v. filter (\<lambda>i. ?g i = v) indices"
  let ?n = "length indices"
  let ?S = "?g ` set indices"
  let ?gs = "map (\<lambda>v. (v, ?sub v)) (sorted_list_of_set ?S)"
  let ?Wd = "fold (\<lambda>group w.
                 let weight = round_double (real (length (snd group)) / real ?n)
                 in round_double
                      (w + round_double (weight * calculateEntropy_double dt (snd group))))
               ?gs 0"
  let ?W = "fold (\<lambda>group w. w + (real (length (snd group)) / real ?n)
                                   * calculateEntropy dt (snd group)) ?gs 0"
  let ?Pd = "calculateEntropy_double dt indices"
  let ?P = "calculateEntropy dt indices"
  define nu where "nu = real ?n * ?u"
  have n: "0 < ?n" using False by simp
  then have "Suc 0 \<le> ?n" by (rule Suc_leI)
  then have "real (Suc 0) \<le> real ?n" by (simp only: of_nat_le_iff)
  then have n1: "1 \<le> real ?n" by simp
  have "1 * ?u \<le> real ?n * ?u" using n1 u(1) by (intro mult_right_mono) simp_all
  then have nu_lo: "?u \<le> nu" by (simp add: nu_def)
  have "real ?n \<le> 2 ^ 31" using assms by simp
  then have "nu \<le> 2 ^ 31 * ?u" unfolding nu_def using u(1) by (intro mult_right_mono) simp_all
  also have "\<dots> \<le> 1 / 4096" by (simp add: unit_roundoff_def)
  finally have nu_hi: "nu \<le> 1 / 4096" .
  have gs: "groupByValue dt indices (getColumnIndex dt feat) = ?gs" by (rule groupByValue_eq)
  have groups: "\<forall>g\<in>set ?gs. 0 < length (snd g) \<and> length (snd g) \<le> ?n"
  proof
    fix g assume "g \<in> set ?gs"
    then obtain v where v: "v \<in> ?S" "g = (v, ?sub v)" by auto
    from v(1) have "0 < length (?sub v)" by (simp only: filter_pos_iff)
    moreover have "length (?sub v) \<le> ?n" by simp
    ultimately show "0 < length (snd g) \<and> length (snd g) \<le> ?n" by (simp only: v(2) snd_conv)
  qed
  have "(\<Sum>g\<leftarrow>?gs. length (snd g)) = (\<Sum>v\<in>?S. length (?sub v))"
    by (simp add: sum_list_distinct_conv_sum_set comp_def)
  also have "\<dots> = ?n" by (rule sum_length_filter_eq) simp_all
  finally have total: "(\<Sum>g\<leftarrow>?gs. length (snd g)) = ?n" .
  have "(\<Sum>g\<leftarrow>?gs. real (length (snd g)) / real ?n) = (\<Sum>v\<in>?S. real (length (?sub v)) / real ?n)"
    by (simp add: sum_list_distinct_conv_sum_set comp_def)
  also have "\<dots> = (\<Sum>v\<in>?S. real (length (?sub v))) / real ?n" by (simp only: sum_divide_distrib)
  also have "(\<Sum>v\<in>?S. real (length (?sub v))) = real ?n"
    by (rule sum_real_length_filter_eq) simp_all
  finally have mass: "(\<Sum>g\<leftarrow>?gs. real (length (snd g)) / real ?n) = 1" using n by simp
  have a0: "\<bar>(0::real) - 0\<bar> \<le> real (0::nat) * (512 * ?u)" by simp
  have m31: "(0::real) + 31 * (\<Sum>g\<leftarrow>?gs. real (length (snd g)) / real ?n) \<le> 31"
    by (simp only: mass)
  have k: "0 + (\<Sum>g\<leftarrow>?gs. length (snd g)) \<le> 2 ^ 31" using total assms by simp
  note r = weighted_fold_error[OF assms groups a0 order_refl m31 k, of dt]
  have "real (0 + (\<Sum>g\<leftarrow>?gs. length (snd g))) * (512 * ?u) = 512 * nu"
    by (simp only: total add_0 nu_def)
  with conjunct1[OF r] have W: "\<bar>?Wd - ?W\<bar> \<le> 512 * nu" by (simp only:)
  have W0: "0 \<le> ?W" by (rule conjunct1[OF conjunct2[OF r]])
  have W31: "?W \<le> 31" by (rule conjunct2[OF conjunct2[OF r]])
  have "real ?n * (256 * ?u) = 256 * nu" by (simp add: nu_def)
  with calculateEntropy_double_error[OF assms, of dt]
  have P: "\<bar>?Pd - ?P\<bar> \<le> 256 * nu" "?P \<le> 31" by (simp_all only:)
  have P0: "0 \<le> ?P" by (rule calculateEntropy_nonneg)
  have "\<bar>?Pd - ?Wd\<bar> \<le> 64" using P P0 W W0 W31 nu_hi by linarith
  then have "\<bar>round_double (?Pd - ?Wd) - (?Pd - ?Wd)\<bar> \<le> (64 + 1) * ?u"
    by (rule round_double_error_bounded)
  then have "\<bar>round_double (?Pd - ?Wd) - (?Pd - ?Wd)\<bar> \<le> 65 * ?u" by simp
  with P(1) W nu_lo u(1) have "\<bar>round_double (?Pd - ?Wd) - (?P - ?W)\<bar> \<le> 1024 * nu"
    by linarith
  moreover have "calculateInformationGain_double dt indices feat = round_double (?Pd - ?Wd)"
    by (simp only: calculateInformationGain_double_def Let_def gs)
  moreover have "calculateInformationGain dt indices feat = ?P - ?W"
    by (simp only: calculateInformationGain_def Let_def gs)
  moreover have "real ?n * (1024 * ?u) = 1024 * nu" by (simp add: nu_def)
  ultimately show ?thesis by (simp only:)
qed

text \<open>With \<open>1024\<close> unit roundoffs being \<open>2^-43\<close>, and the exact gain not negative:\<close>

lemma calculateInformationGain_double_lower:
  assumes "length indices < 2 ^ 31"
  shows "- (real (length indices) / 2 ^ 43) \<le> calculateInformationGain_double dt indices feat"
proof -
  have "real (length indices) * (1024 * unit_roundoff) = real (length indices) / 2 ^ 43"
    by (simp add: unit_roundoff_def)
  with calculateInformationGain_double_error[OF assms, of dt feat]
  have "\<bar>calculateInformationGain_double dt indices feat
            - calculateInformationGain dt indices feat\<bar> \<le> real (length indices) / 2 ^ 43"
    by (simp only:)
  with calculateInformationGain_nonneg[of dt indices feat] show ?thesis by linarith
qed

lemma calculateInformationGain_double_above_start:
  assumes "length indices < 2 ^ 31"
  shows "- 1 < calculateInformationGain_double dt indices feat"
proof -
  have "real (length indices) \<le> 2 ^ 31" using assms by simp
  then have "real (length indices) / 2 ^ 43 \<le> 2 ^ 31 / 2 ^ 43" by (intro divide_right_mono) simp_all
  also have "\<dots> < (1::real)" by simp
  finally show ?thesis using calculateInformationGain_double_lower[OF assms, of dt feat] by linarith
qed

text \<open>C6 (amended): for a subset of fewer than \<open>2^31\<close> rows (the source holds the number of
  rows in an \<^verbatim>\<open>int\<close>), the information gain evaluated in exact arithmetic is never
  negative, the \<^verbatim>\<open>double\<close> that \<^verbatim>\<open>calculateInformationGain\<close> returns differs from it by at
  most \<open>n * 2^-43\<close>, \<open>n\<close> the number of rows, and so is never below \<open>- n * 2^-43\<close>. It can
  be negative, as above.\<close>

theorem information_gain_double_bounds:
  assumes "length indices < 2 ^ 31"
  shows "0 \<le> calculateInformationGain dt indices feat
       \<and> \<bar>calculateInformationGain_double dt indices feat
            - calculateInformationGain dt indices feat\<bar> \<le> real (length indices) / 2 ^ 43
       \<and> - (real (length indices) / 2 ^ 43) \<le> calculateInformationGain_double dt indices feat"
proof -
  have "real (length indices) * (1024 * unit_roundoff) = real (length indices) / 2 ^ 43"
    by (simp add: unit_roundoff_def)
  with calculateInformationGain_double_error[OF assms, of dt feat]
  have "\<bar>calculateInformationGain_double dt indices feat
            - calculateInformationGain dt indices feat\<bar> \<le> real (length indices) / 2 ^ 43"
    by (simp only:)
  with calculateInformationGain_nonneg[of dt indices feat]
    calculateInformationGain_double_lower[OF assms, of dt feat]
  show ?thesis by (intro conjI)
qed

theorem information_gain_double_bounds_witness:
  "length [0..<20] < 2 ^ 31 \<and>
   0 \<le> calculateInformationGain rounding [0..<20] ''f'' \<and>
   \<bar>calculateInformationGain_double rounding [0..<20] ''f''
      - calculateInformationGain rounding [0..<20] ''f''\<bar> \<le> real (length [0..<20]) / 2 ^ 43 \<and>
   - (real (length [0..<20]) / 2 ^ 43) \<le> calculateInformationGain_double rounding [0..<20] ''f''"
proof -
  have l: "length [0..<20] < 2 ^ 31" by simp
  show ?thesis by (rule conjI[OF l information_gain_double_bounds[OF l]])
qed

subsection \<open>The best feature as the code computes it\<close>

text \<open>\<^verbatim>\<open>findBestFeature\<close> with the gains that the code compares, the rounded ones.\<close>

definition findBestFeature_double :: "DecisionTree \<Rightarrow> nat list \<Rightarrow> string set \<Rightarrow> string" where
  "findBestFeature_double dt indices usedFeatures =
     fst (fold (\<lambda>feat (bestFeature, bestGain).
                  if feat \<noteq> targetColumn dt \<and> feat \<notin> usedFeatures
                  then (let gain = calculateInformationGain_double dt indices feat
                        in if gain > bestGain then (feat, gain)
                           else (bestFeature, bestGain))
                  else (bestFeature, bestGain))
               (headers dt) ('''', - 1))"

lemma findBestFeature_double_fold:
  "findBestFeature_double dt indices used =
     fst (fold (\<lambda>x (b, m). if calculateInformationGain_double dt indices x > m
                             then (x, calculateInformationGain_double dt indices x) else (b, m))
               (eligibleFeatures dt used) ([], - 1))"
  unfolding findBestFeature_double_def eligibleFeatures_def
  by (simp only: fold_skip_ineligible[where P = "\<lambda>h. h \<noteq> targetColumn dt \<and> h \<notin> used"])

text \<open>Whatever the rounded gains are, the loop returns the first eligible header, in header
  order, whose computed gain is maximal, unless no computed gain exceeds \<open>-1.0\<close>.\<close>

lemma findBestFeature_double_first_max:
  "(findBestFeature_double dt indices used = []
      \<and> (\<forall>h\<in>set (eligibleFeatures dt used). calculateInformationGain_double dt indices h \<le> - 1))
   \<or> (\<exists>k<length (eligibleFeatures dt used).
         findBestFeature_double dt indices used = eligibleFeatures dt used ! k
         \<and> - 1 < calculateInformationGain_double dt indices (eligibleFeatures dt used ! k)
         \<and> (\<forall>j<k. calculateInformationGain_double dt indices (eligibleFeatures dt used ! j)
                    < calculateInformationGain_double dt indices (eligibleFeatures dt used ! k))
         \<and> (\<forall>h\<in>set (eligibleFeatures dt used).
               calculateInformationGain_double dt indices h
                 \<le> calculateInformationGain_double dt indices (eligibleFeatures dt used ! k)))"
proof -
  let ?E = "eligibleFeatures dt used"
  let ?G = "calculateInformationGain_double dt indices"
  let ?r = "fold (\<lambda>x (b, m). if ?G x > m then (x, ?G x) else (b, m)) ?E ([], - 1)"
  from fold_first_max[of ?G "\<lambda>x. x" ?E "[]" "- 1"]
  consider "?r = ([], - 1)" "\<forall>x\<in>set ?E. ?G x \<le> - 1"
    | k where "k < length ?E" "?r = (?E ! k, ?G (?E ! k))" "- 1 < ?G (?E ! k)"
        "\<forall>j<k. ?G (?E ! j) < ?G (?E ! k)" "\<forall>x\<in>set ?E. ?G x \<le> ?G (?E ! k)"
    by blast
  then show ?thesis
  proof cases
    case 1
    from 1(1) have "findBestFeature_double dt indices used = []"
      by (simp add: findBestFeature_double_fold)
    with 1(2) show ?thesis by blast
  next
    case 2
    from 2(2) have "findBestFeature_double dt indices used = ?E ! k"
      by (simp add: findBestFeature_double_fold)
    with 2(1,3,4,5) show ?thesis by blast
  qed
qed

lemma log2_double_one [simp]: "log2_double 1 = 0"
  by (simp add: log2_double_def)

text \<open>A subset with one class has the entropy \<open>0.0\<close>, exactly.\<close>

lemma calculateEntropy_double_single:
  assumes "countValues dt indices (getColumnIndex dt (targetColumn dt)) = [(a, k)]"
    and "length indices = k" and "0 < k"
  shows "calculateEntropy_double dt indices = 0"
proof -
  have ne: "indices \<noteq> []" using assms(2,3) by auto
  show ?thesis
    using ne assms(3) by (simp add: calculateEntropy_double_def assms(1,2) Let_def)
qed

lemma unnamed_gain: "calculateInformationGain_double unnamed [0, 1] '''' = 1"
proof -
  have cols: "getColumnIndex unnamed '''' = 0" "getColumnIndex unnamed (targetColumn unnamed) = 1"
    by (simp_all add: getColumnIndex_def unnamed_def)
  have groups: "groupByValue unnamed [0, 1] 0 = [(''x'', [0]), (''y'', [1])]"
    by (simp add: groupByValue_def cell_def unnamed_def)
  have counts: "countValues unnamed [0, 1] 1 = [(''a'', 1), (''b'', 1)]"
    "countValues unnamed [0] 1 = [(''a'', 1)]" "countValues unnamed [1] 1 = [(''b'', 1)]"
    by (simp_all add: countValues_def cell_def unnamed_def)
  have parent: "calculateEntropy_double unnamed [0, 1] = 1"
    by (rule calculateEntropy_double_balanced[where a = "''a''" and b = "''b''" and k = 1])
       (simp_all only: cols counts, simp_all)
  have pure: "calculateEntropy_double unnamed [0] = 0" "calculateEntropy_double unnamed [1] = 0"
  proof -
    show "calculateEntropy_double unnamed [0] = 0"
      by (rule calculateEntropy_double_single[where a = "''a''" and k = 1])
         (simp_all only: cols counts, simp_all)
    show "calculateEntropy_double unnamed [1] = 0"
      by (rule calculateEntropy_double_single[where a = "''b''" and k = 1])
         (simp_all only: cols counts, simp_all)
  qed
  show ?thesis
    unfolding calculateInformationGain_double_def Let_def cols groups
    by (simp only: fold_simps snd_conv parent pure) simp
qed

lemma unnamed_eligible: "eligibleFeatures unnamed {} = ['''']"
  by (simp add: eligibleFeatures_def unnamed_def)

lemma unnamed_best_double: "findBestFeature_double unnamed [0, 1] {} = ''''"
  unfolding findBestFeature_double_fold unnamed_eligible
  by (simp only: fold_simps unnamed_gain) simp

text \<open>C4 (the code fails the claim): for the header line \<^verbatim>\<open>,t\<close> the only eligible column is
  named by the empty string. Its computed gain is \<open>1.0\<close>, so the loop takes it, and
  \<^verbatim>\<open>findBestFeature\<close> returns its name, the empty string: the value that stands for
  "none" although an eligible feature remains.\<close>

theorem findBestFeature_double_empty_name:
  "valid_dataset unnamed \<and> valid_subset unnamed [0, 1] \<and>
   eligibleFeatures unnamed {} = [''''] \<and>
   calculateInformationGain_double unnamed [0, 1] '''' = 1 \<and>
   findBestFeature_double unnamed [0, 1] {} = ''''"
proof -
  have v: "valid_dataset unnamed" "valid_subset unnamed [0, 1]"
    by (simp_all add: valid_dataset_def valid_subset_def unnamed_def)
  from v unnamed_eligible unnamed_gain unnamed_best_double show ?thesis by (intro conjI)
qed

text \<open>The computed gain of a subset of fewer than \<open>2^31\<close> rows is above \<open>-1.0\<close>, the value
  that \<^verbatim>\<open>bestGain\<close> starts with. So the loop of \<^verbatim>\<open>findBestFeature\<close> returns the first
  eligible header, in header order, whose computed gain is maximal, and it returns the
  initial empty string when there is no eligible header.\<close>

lemma findBestFeature_double_eligible:
  assumes "length indices < 2 ^ 31" and "eligibleFeatures dt used \<noteq> []"
  shows "\<exists>k<length (eligibleFeatures dt used).
           findBestFeature_double dt indices used = eligibleFeatures dt used ! k
           \<and> (\<forall>j<k. calculateInformationGain_double dt indices (eligibleFeatures dt used ! j)
                      < calculateInformationGain_double dt indices (eligibleFeatures dt used ! k))
           \<and> (\<forall>h\<in>set (eligibleFeatures dt used).
                 calculateInformationGain_double dt indices h
                   \<le> calculateInformationGain_double dt indices (eligibleFeatures dt used ! k))"
proof -
  from assms(2) obtain h where h: "h \<in> set (eligibleFeatures dt used)"
    by (cases "eligibleFeatures dt used") auto
  have "- 1 < calculateInformationGain_double dt indices h"
    using assms(1) by (rule calculateInformationGain_double_above_start)
  with h have "\<not> (\<forall>h\<in>set (eligibleFeatures dt used).
      calculateInformationGain_double dt indices h \<le> - 1)"
    by (metis not_le)
  with findBestFeature_double_first_max[of dt indices used] show ?thesis by blast
qed

lemma findBestFeature_double_none:
  "eligibleFeatures dt used = [] \<Longrightarrow> findBestFeature_double dt indices used = []"
  by (simp add: findBestFeature_double_fold)

subsection \<open>Two features with the same computed gain\<close>

text \<open>The columns \<open>f\<close> and \<open>g\<close> of \<open>twins\<close> hold the same values, so their computed gains are
  the same number, and the strict comparison of the loop keeps the first of them.\<close>

definition twins :: DecisionTree where
  "twins = \<lparr>data = [[''x'', ''x'', ''a''], [''y'', ''y'', ''b'']],
            headers = [''f'', ''g'', ''t''], targetColumn = ''t'', root = None\<rparr>"

lemma twins_gain:
  "calculateInformationGain_double twins [0, 1] ''f'' = 1"
  "calculateInformationGain_double twins [0, 1] ''g'' = 1"
proof -
  have cols: "getColumnIndex twins ''f'' = 0" "getColumnIndex twins ''g'' = 1"
    "getColumnIndex twins (targetColumn twins) = 2"
    by (simp_all add: getColumnIndex_def twins_def)
  have groups: "groupByValue twins [0, 1] 0 = [(''x'', [0]), (''y'', [1])]"
    "groupByValue twins [0, 1] 1 = [(''x'', [0]), (''y'', [1])]"
    by (simp_all add: groupByValue_def cell_def twins_def)
  have counts: "countValues twins [0, 1] 2 = [(''a'', 1), (''b'', 1)]"
    "countValues twins [0] 2 = [(''a'', 1)]" "countValues twins [1] 2 = [(''b'', 1)]"
    by (simp_all add: countValues_def cell_def twins_def)
  have parent: "calculateEntropy_double twins [0, 1] = 1"
    by (rule calculateEntropy_double_balanced[where a = "''a''" and b = "''b''" and k = 1])
       (simp_all only: cols counts, simp_all)
  have pure: "calculateEntropy_double twins [0] = 0" "calculateEntropy_double twins [1] = 0"
  proof -
    show "calculateEntropy_double twins [0] = 0"
      by (rule calculateEntropy_double_single[where a = "''a''" and k = 1])
         (simp_all only: cols counts, simp_all)
    show "calculateEntropy_double twins [1] = 0"
      by (rule calculateEntropy_double_single[where a = "''b''" and k = 1])
         (simp_all only: cols counts, simp_all)
  qed
  show "calculateInformationGain_double twins [0, 1] ''f'' = 1"
    unfolding calculateInformationGain_double_def Let_def cols groups
    by (simp only: fold_simps snd_conv parent pure) simp
  show "calculateInformationGain_double twins [0, 1] ''g'' = 1"
    unfolding calculateInformationGain_double_def Let_def cols groups
    by (simp only: fold_simps snd_conv parent pure) simp
qed

lemma twins_best_double:
  "eligibleFeatures twins {} = [''f'', ''g'']"
  "findBestFeature_double twins [0, 1] {} = ''f''"
proof -
  show e: "eligibleFeatures twins {} = [''f'', ''g'']"
    by (simp add: eligibleFeatures_def twins_def)
  show "findBestFeature_double twins [0, 1] {} = ''f''"
    unfolding findBestFeature_double_fold e by (simp only: fold_simps twins_gain) simp
qed

subsection \<open>The round trip on the dataset with the empty name\<close>

text \<open>C5 (the code fails the claim): training on \<open>unnamed\<close> succeeds. \<^verbatim>\<open>findBestFeature\<close>
  returns the empty string for the determining column, in exact arithmetic and as the
  code computes it (the gain is \<open>1.0\<close> in both); \<^verbatim>\<open>buildTree\<close> reads that as "no feature"
  and returns the majority leaf \<open>a\<close>. The instance that reproduces the second row is
  answered \<open>a\<close>, and the row's own target value is \<open>b\<close>.\<close>

theorem train_round_trip_empty_name:
  "fst (train new_tree (Some (headers unnamed # data unnamed)) ''t'') \<and>
   findBestFeature_double unnamed [0, 1] {} = findBestFeature unnamed [0, 1] {} \<and>
   data unnamed ! 1 = [''y'', ''b''] \<and>
   data unnamed ! 1 ! find_distance (headers unnamed) ''t'' = ''b'' \<and>
   predictInstance (snd (train new_tree (Some (headers unnamed # data unnamed)) ''t''))
     ['''' \<mapsto> ''y''] = ''a''"
proof -
  have dt: "\<lparr>data = data unnamed, headers = headers unnamed, targetColumn = ''t'', root = None\<rparr>
      = unnamed"
    by (simp add: unnamed_def)
  have cells: "getColumnIndex unnamed ''t'' = 1" "targetColumn unnamed = ''t''"
    "cell unnamed 0 1 = ''a''" "cell unnamed (Suc 0) 1 = ''b''"
    by (simp_all add: getColumnIndex_def cell_def unnamed_def)
  have all: "[0..<length (data unnamed)] = [0, 1]"
    by (simp add: unnamed_def upt_rec)
  have np: "\<not> allSameClass unnamed [0, 1]"
    by (simp add: allSameClass_def cells)
  have e: "eligibleFeatures unnamed {} = ['''']"
    by (simp add: eligibleFeatures_def unnamed_def)
  have f: "findBestFeature unnamed [0, 1] {} = ''''"
    using findBestFeature_first_max[of unnamed "{}" "[0, 1]"] by (simp add: e)
  have m: "getMostCommonClass unnamed [0, 1] = ''a''"
    by (simp add: getMostCommonClass_def countValues_def cells)
  have "buildTree unnamed [0, 1] {} = leaf_node (getMostCommonClass unnamed [0, 1])"
    by (rule buildTree_majority[OF _ np f]) simp
  then have t: "buildTree unnamed [0..<length (data unnamed)] {} = leaf_node ''a''"
    by (simp only: m all)
  have tr: "train new_tree (Some (headers unnamed # data unnamed)) ''t'' =
     (True, \<lparr>data = data unnamed, headers = headers unnamed, targetColumn = ''t'',
             root = Some (leaf_node ''a'')\<rparr>)"
  proof -
    have "data unnamed \<noteq> []" "''t'' \<in> set (headers unnamed)"
      by (simp_all add: unnamed_def)
    from train_loaded[OF this] show ?thesis by (simp only: dt t)
  qed
  have d: "data unnamed ! 1 = [''y'', ''b'']"
    by (simp add: unnamed_def)
  have b: "data unnamed ! 1 ! find_distance (headers unnamed) ''t'' = ''b''"
    by (simp add: unnamed_def)
  have p: "predictInstance (snd (train new_tree (Some (headers unnamed # data unnamed)) ''t''))
     ['''' \<mapsto> ''y''] = ''a''"
    unfolding tr by (simp add: predictInstance_def leaf_node_def)
  have ok: "fst (train new_tree (Some (headers unnamed # data unnamed)) ''t'')"
    unfolding tr by simp
  have fd: "findBestFeature_double unnamed [0, 1] {} = findBestFeature unnamed [0, 1] {}"
    by (simp only: f unnamed_best_double)
  from ok fd d b p show ?thesis by (intro conjI)
qed

end
